theory Spec2Isabelle
  imports Main "HOL-Library.AList" "HOL-Library.Product_Lexorder"
begin

section \<open>The crossword solver of \<open>src/crossword/generate.py\<close>\<close>

text \<open>
  The development embeds the class \<open>CrosswordCreator\<close>: node consistency, arc revision,
  AC-3 propagation, the two ordering heuristics, the consistency check and the
  backtracking search.

  Representation. A Python \<open>set\<close> of words is a list in its enumeration order, a
  \<open>dict\<close> is an association list in insertion order (\<open>d[k]\<close> is \<open>map_of d k\<close>,
  and a missing key is the branch \<open>KeyError\<close>). Words are strings, letter positions
  are natural numbers, and \<open>w[i]\<close> beyond the end of \<open>w\<close> is the branch
  \<open>IndexError\<close>. Every method that mutates \<open>self\<close> returns the updated object.
\<close>

subsection \<open>Data model\<close>

type_synonym word = string

datatype error = KeyError | IndexError

datatype direction = ACROSS | DOWN

text \<open>
  Modelled from the spec: the class \<open>Variable\<close> (module \<open>crossword\<close>, imported by
  \<open>generate.py\<close>) is a slot with a starting row, a starting column, a direction and a
  length; two variables are equal iff all four attributes match.
\<close>

record Variable =
  var_i :: nat
  var_j :: nat
  var_direction :: direction
  var_length :: nat

text \<open>
  Modelled from the spec: the class \<open>Crossword\<close> (module \<open>crossword\<close>) gives the set
  of slot variables, the word list and the overlap table. The table is a parameter here:
  \<open>overlaps cw (x, y)\<close> is \<open>None\<close> when the pair is not a key of the table,
  \<open>Some None\<close> when the two slots share no cell, and \<open>Some (Some (i, j))\<close> when
  letter \<open>i\<close> of \<open>x\<close> and letter \<open>j\<close> of \<open>y\<close> are the same cell. The grid's height,
  width and structure are used by the rendering methods only and are left out.
\<close>

record Crossword =
  variables :: "Variable list"
  words :: "word list"
  overlaps :: "Variable \<times> Variable \<Rightarrow> (nat \<times> nat) option option"

text \<open>
  Modelled from the spec: \<open>Crossword.neighbors(var)\<close> is the set of the other variables
  with a non-null overlap with \<open>var\<close>, enumerated in the order of \<open>variables\<close>.
\<close>

definition neighbors :: "Crossword \<Rightarrow> Variable \<Rightarrow> Variable list" where
  "neighbors cw var =
     filter (\<lambda>v. v \<noteq> var \<and> (case overlaps cw (v, var) of Some (Some ij) \<Rightarrow> True | _ \<Rightarrow> False))
       (variables cw)"

record CrosswordCreator =
  crossword :: Crossword
  domains :: "(Variable \<times> word list) list"

type_synonym assignment = "(Variable \<times> word) list"

text \<open>\<open>__init__\<close>: every variable starts with a copy of the whole word list.\<close>

definition init :: "Crossword \<Rightarrow> CrosswordCreator" where
  "init cw = \<lparr>crossword = cw, domains = map (\<lambda>var. (var, words cw)) (variables cw)\<rparr>"

text \<open>\<open>self.domains[x].remove(w)\<close>, for a word \<open>w\<close> drawn from a snapshot of that set.\<close>

definition remove_word :: "CrosswordCreator \<Rightarrow> Variable \<Rightarrow> word \<Rightarrow> CrosswordCreator" where
  "remove_word cr x w = cr\<lparr>domains := AList.map_entry x (removeAll w) (domains cr)\<rparr>"

subsection \<open>Node consistency\<close>

text \<open>The inner loop of \<open>enforce_node_consistency\<close>, over the snapshot \<open>domain_copy\<close>.\<close>

definition prune_lengths :: "Variable \<Rightarrow> word list \<Rightarrow> CrosswordCreator \<Rightarrow> CrosswordCreator" where
  "prune_lengths var domain_copy cr =
     fold (\<lambda>word s. if length word \<noteq> var_length var then remove_word s var word else s)
       domain_copy cr"

definition enforce_node_consistency :: "CrosswordCreator \<Rightarrow> CrosswordCreator" where
  "enforce_node_consistency cr =
     fold (\<lambda>var s. case map_of (domains s) var of
                      None \<Rightarrow> s
                    | Some domain_copy \<Rightarrow> prune_lengths var domain_copy s)
       (map fst (domains cr)) cr"

subsection \<open>Arc revision\<close>

text \<open>
  The inner loop of \<open>revise\<close>: scan the words of \<open>y\<close>'s domain until one agrees with
  \<open>Xword\<close> (\<open>valid = True; break\<close>). \<open>Xword[i]\<close> is read before \<open>Yword[j]\<close>.
\<close>

fun valid_against :: "nat \<Rightarrow> nat \<Rightarrow> word \<Rightarrow> word list \<Rightarrow> error + bool" where
  "valid_against i j Xword [] = Inr False"
| "valid_against i j Xword (Yword # rest) =
     (if i < length Xword then
        (if j < length Yword then
           (if Xword ! i = Yword ! j then Inr True else valid_against i j Xword rest)
         else Inl IndexError)
      else Inl IndexError)"

text \<open>The outer loop of \<open>revise\<close>, over the snapshot \<open>x_domain_copy\<close>.\<close>

fun revise_loop ::
  "CrosswordCreator \<Rightarrow> Variable \<Rightarrow> Variable \<Rightarrow> nat \<Rightarrow> nat \<Rightarrow> word list \<Rightarrow> bool
     \<Rightarrow> error + (bool \<times> CrosswordCreator)" where
  "revise_loop cr x y i j [] revised = Inr (revised, cr)"
| "revise_loop cr x y i j (Xword # rest) revised =
     (case map_of (domains cr) y of
        None \<Rightarrow> Inl KeyError
      | Some y_domain \<Rightarrow>
          (case valid_against i j Xword y_domain of
             Inl e \<Rightarrow> Inl e
           | Inr valid \<Rightarrow>
               if \<not> valid then revise_loop (remove_word cr x Xword) x y i j rest True
               else revise_loop cr x y i j rest revised))"

definition revise ::
  "CrosswordCreator \<Rightarrow> Variable \<Rightarrow> Variable \<Rightarrow> error + (bool \<times> CrosswordCreator)" where
  "revise cr x y =
     (case map_of (domains cr) x of
        None \<Rightarrow> Inl KeyError
      | Some x_domain_copy \<Rightarrow>
          (case overlaps (crossword cr) (x, y) of
             None \<Rightarrow> Inl KeyError
           | Some None \<Rightarrow> Inr (False, cr)
           | Some (Some (i, j)) \<Rightarrow> revise_loop cr x y i j x_domain_copy False))"

subsection \<open>AC-3\<close>

text \<open>The total number of candidate words; every removal lowers it.\<close>

definition dsize :: "CrosswordCreator \<Rightarrow> nat" where
  "dsize cr = sum_list (map (\<lambda>p. length (snd p)) (domains cr))"

lemma sum_map_entry_le:
  "sum_list (map (\<lambda>p. length (snd p)) (AList.map_entry x (removeAll w) al))
     \<le> sum_list (map (\<lambda>p. length (snd p)) al)"
proof (induction al)
  case Nil
  show ?case by simp
next
  case (Cons p al)
  have "length (removeAll w (snd p)) \<le> length (snd p)"
    by (simp add: removeAll_filter_not_eq)
  with Cons show ?case
    by (cases p) (auto simp: add_mono)
qed

lemma length_removeAll_mem_less:
  "w \<in> set d \<Longrightarrow> length (removeAll w d) < length d"
  by (induction d) (auto simp: less_Suc_eq_le removeAll_filter_not_eq)

lemma sum_map_entry_less:
  "map_of al x = Some d \<Longrightarrow> w \<in> set d \<Longrightarrow>
   sum_list (map (\<lambda>p. length (snd p)) (AList.map_entry x (removeAll w) al))
     < sum_list (map (\<lambda>p. length (snd p)) al)"
proof (induction al)
  case Nil
  then show ?case by simp
next
  case (Cons p al)
  then show ?case
    by (cases p) (auto simp: length_removeAll_mem_less split: if_splits)
qed

lemma dsize_remove_word_le: "dsize (remove_word cr x w) \<le> dsize cr"
  by (simp add: dsize_def remove_word_def sum_map_entry_le)

lemma dsize_remove_word_less:
  "map_of (domains cr) x = Some d \<Longrightarrow> w \<in> set d \<Longrightarrow> dsize (remove_word cr x w) < dsize cr"
  by (simp add: dsize_def remove_word_def sum_map_entry_less)

lemma revise_loop_dsize_le:
  "revise_loop cr x y i j ws rv = Inr (r, cr') \<Longrightarrow> dsize cr' \<le> dsize cr"
proof (induction ws arbitrary: cr rv)
  case Nil
  then show ?case by simp
next
  case (Cons w ws)
  from Cons.prems obtain yd v where
    v: "valid_against i j w yd = Inr v" and
    step: "(if \<not> v then revise_loop (remove_word cr x w) x y i j ws True
            else revise_loop cr x y i j ws rv) = Inr (r, cr')"
    by (auto split: option.splits sum.splits)
  show ?case
  proof (cases v)
    case True
    with step Cons.IH show ?thesis by simp
  next
    case False
    with step have "revise_loop (remove_word cr x w) x y i j ws True = Inr (r, cr')" by simp
    then have "dsize cr' \<le> dsize (remove_word cr x w)" by (rule Cons.IH)
    with dsize_remove_word_le [of cr x w] show ?thesis by simp
  qed
qed

lemma revise_loop_dsize_less:
  "map_of (domains cr) x = Some d \<Longrightarrow> set ws \<subseteq> set d \<Longrightarrow>
   revise_loop cr x y i j ws False = Inr (True, cr') \<Longrightarrow> dsize cr' < dsize cr"
proof (induction ws)
  case Nil
  then show ?case by simp
next
  case (Cons w ws)
  from Cons.prems(3) obtain yd v where
    v: "valid_against i j w yd = Inr v" and
    step: "(if \<not> v then revise_loop (remove_word cr x w) x y i j ws True
            else revise_loop cr x y i j ws False) = Inr (True, cr')"
    by (auto split: option.splits sum.splits)
  show ?case
  proof (cases v)
    case True
    with step Cons show ?thesis by simp
  next
    case False
    with step have "revise_loop (remove_word cr x w) x y i j ws True = Inr (True, cr')" by simp
    then have "dsize cr' \<le> dsize (remove_word cr x w)" by (rule revise_loop_dsize_le)
    moreover have "dsize (remove_word cr x w) < dsize cr"
      using Cons.prems(1,2) by (auto intro: dsize_remove_word_less)
    ultimately show ?thesis by simp
  qed
qed

lemma revise_dsize_le: "revise cr x y = Inr (r, cr') \<Longrightarrow> dsize cr' \<le> dsize cr"
  by (auto simp: revise_def split: option.splits dest: revise_loop_dsize_le)

lemma revise_dsize_less: "revise cr x y = Inr (True, cr') \<Longrightarrow> dsize cr' < dsize cr"
  by (auto simp: revise_def split: option.splits dest: revise_loop_dsize_less)

text \<open>
  The worklist loop of \<open>ac3\<close>: \<open>queue.pop(0)\<close> takes the head, new arcs are appended.
\<close>

function ac3_loop ::
  "CrosswordCreator \<Rightarrow> (Variable \<times> Variable) list \<Rightarrow> error + (bool \<times> CrosswordCreator)" where
  "ac3_loop cr [] = Inr (True, cr)"
| "ac3_loop cr ((x, y) # queue) =
     (case revise cr x y of
        Inl e \<Rightarrow> Inl e
      | Inr (revised, cr') \<Rightarrow>
          if revised then
            (case map_of (domains cr') x of
               None \<Rightarrow> Inl KeyError
             | Some x_domain \<Rightarrow>
                 if x_domain = [] then Inr (False, cr')
                 else ac3_loop cr'
                        (queue @ map (\<lambda>z. (z, x))
                                   (filter (\<lambda>z. z \<noteq> y) (neighbors (crossword cr') x))))
          else ac3_loop cr' queue)"
  by pat_completeness auto
termination
proof (relation "inv_image (less_than <*lex*> less_than) (\<lambda>(cr, q). (dsize cr, length q))",
    goal_cases)
  case 1
  show ?case by (intro wf_inv_image wf_lex_prod wf_less_than)
next
  case (2 cr x y queue b revised cr' xd)
  then have "revise cr x y = Inr (True, cr')" by simp
  then have "dsize cr' < dsize cr" by (rule revise_dsize_less)
  then show ?case by simp
next
  case (3 cr x y queue b revised cr')
  then have "revise cr x y = Inr (revised, cr')" by simp
  then have "dsize cr' \<le> dsize cr" by (rule revise_dsize_le)
  then show ?case by auto
qed

text \<open>\<open>ac3(arcs)\<close>: without \<open>arcs\<close> the worklist starts with every ordered pair of
  distinct variables.\<close>

definition all_arcs :: "CrosswordCreator \<Rightarrow> (Variable \<times> Variable) list" where
  "all_arcs cr =
     concat (map (\<lambda>v1. map (\<lambda>v2. (v1, v2)) (filter (\<lambda>v2. v1 \<noteq> v2) (map fst (domains cr))))
               (map fst (domains cr)))"

definition ac3 ::
  "CrosswordCreator \<Rightarrow> (Variable \<times> Variable) list option \<Rightarrow> error + (bool \<times> CrosswordCreator)" where
  "ac3 cr arcs = ac3_loop cr (case arcs of None \<Rightarrow> all_arcs cr | Some queue \<Rightarrow> queue)"

subsection \<open>Assignments and the consistency check\<close>

definition assignment_complete :: "CrosswordCreator \<Rightarrow> assignment \<Rightarrow> bool" where
  "assignment_complete cr a = list_all (\<lambda>var. map_of a var \<noteq> None) (map fst (domains cr))"

text \<open>
  The loop of \<open>consistent\<close> over the neighbors of \<open>var\<close>; \<open>Inr False\<close> is the early
  \<open>return False\<close>, \<open>Inr True\<close> means that the loop ran to its end.
\<close>

fun check_neighbors ::
  "CrosswordCreator \<Rightarrow> assignment \<Rightarrow> Variable \<Rightarrow> word \<Rightarrow> Variable list \<Rightarrow> error + bool" where
  "check_neighbors cr a var val [] = Inr True"
| "check_neighbors cr a var val (y # ys) =
     (case map_of a y of
        None \<Rightarrow> check_neighbors cr a var val ys
      | Some yval \<Rightarrow>
          (case overlaps (crossword cr) (var, y) of
             None \<Rightarrow> Inl KeyError
           | Some None \<Rightarrow> check_neighbors cr a var val ys
           | Some (Some (i, j)) \<Rightarrow>
               if i < length val then
                 (if j < length yval then
                    (if val ! i \<noteq> yval ! j then Inr False
                     else check_neighbors cr a var val ys)
                  else Inl IndexError)
               else Inl IndexError))"

text \<open>The loop of \<open>consistent\<close> over the items of the assignment.\<close>

fun consistent_loop ::
  "CrosswordCreator \<Rightarrow> assignment \<Rightarrow> (Variable \<times> word) list \<Rightarrow> word list \<Rightarrow> error + bool" where
  "consistent_loop cr a [] distinct_values = Inr True"
| "consistent_loop cr a ((var, val) # rest) distinct_values =
     (if length val \<noteq> var_length var then Inr False
      else
        (case check_neighbors cr a var val (neighbors (crossword cr) var) of
           Inl e \<Rightarrow> Inl e
         | Inr ok \<Rightarrow>
             if \<not> ok then Inr False
             else if val \<in> set distinct_values then Inr False
             else consistent_loop cr a rest (distinct_values @ [val])))"

definition consistent :: "CrosswordCreator \<Rightarrow> assignment \<Rightarrow> error + bool" where
  "consistent cr a = consistent_loop cr a a []"

subsection \<open>Ordering heuristics\<close>

text \<open>
  The counter \<open>c\<close> of \<open>order_domain_values\<close>: the number of neighbors whose domain
  holds the word \<open>x\<close>.
\<close>

fun count_containing :: "CrosswordCreator \<Rightarrow> word \<Rightarrow> Variable list \<Rightarrow> error + nat" where
  "count_containing cr x [] = Inr 0"
| "count_containing cr x (neighbor # rest) =
     (case map_of (domains cr) neighbor of
        None \<Rightarrow> Inl KeyError
      | Some d \<Rightarrow>
          (case count_containing cr x rest of
             Inl e \<Rightarrow> Inl e
           | Inr c \<Rightarrow> Inr ((if x \<in> set d then 1 else 0) + c)))"

text \<open>
  The list \<open>Dvalues\<close>. The test \<open>x in assignment\<close> of the source compares a word with
  the keys of the assignment, which are variables: it never holds, and no word is skipped.
\<close>

fun Dvalues :: "CrosswordCreator \<Rightarrow> Variable list \<Rightarrow> word list \<Rightarrow> error + (word \<times> nat) list" where
  "Dvalues cr ns [] = Inr []"
| "Dvalues cr ns (x # xs) =
     (case count_containing cr x ns of
        Inl e \<Rightarrow> Inl e
      | Inr c \<Rightarrow>
          (case Dvalues cr ns xs of
             Inl e \<Rightarrow> Inl e
           | Inr rest \<Rightarrow> Inr ((x, c) # rest)))"

definition order_domain_values ::
  "CrosswordCreator \<Rightarrow> Variable \<Rightarrow> assignment \<Rightarrow> error + word list" where
  "order_domain_values cr var a =
     (case map_of (domains cr) var of
        None \<Rightarrow> Inl KeyError
      | Some d \<Rightarrow>
          (case Dvalues cr (neighbors (crossword cr) var) d of
             Inl e \<Rightarrow> Inl e
           | Inr dvalues \<Rightarrow> Inr (map fst (sort_key snd dvalues))))"

text \<open>
  The list \<open>mrv\<close> of \<open>select_unassigned_variable\<close>: the triples
  \<open>(var, Dsize, Nsize)\<close> of the variables absent from the assignment, in the order of
  the keys of \<open>self.domains\<close>.
\<close>

fun mrv ::
  "CrosswordCreator \<Rightarrow> assignment \<Rightarrow> Variable list \<Rightarrow> error + (Variable \<times> nat \<times> nat) list" where
  "mrv cr a [] = Inr []"
| "mrv cr a (var # rest) =
     (if map_of a var \<noteq> None then mrv cr a rest
      else
        (case map_of (domains cr) var of
           None \<Rightarrow> Inl KeyError
         | Some d \<Rightarrow>
             (case mrv cr a rest of
                Inl e \<Rightarrow> Inl e
              | Inr triples \<Rightarrow>
                  Inr ((var, length d, length (neighbors (crossword cr) var)) # triples))))"

text \<open>
  \<open>sorted\<close> is stable and ascending, on the key \<open>(Dsize, Nsize)\<close> in the lexicographic
  order of pairs; \<open>s[0][0]\<close> raises on an empty list.
\<close>

definition select_unassigned_variable :: "CrosswordCreator \<Rightarrow> assignment \<Rightarrow> error + Variable" where
  "select_unassigned_variable cr a =
     (case mrv cr a (map fst (domains cr)) of
        Inl e \<Rightarrow> Inl e
      | Inr triples \<Rightarrow>
          (case sort_key (\<lambda>(var, Dsize, Nsize). (Dsize, Nsize)) triples of
             [] \<Rightarrow> Inl IndexError
           | t # rest \<Rightarrow> Inr (fst t)))"

subsection \<open>Backtracking search\<close>

text \<open>
  \<open>backtrack\<close> mutates the dictionary it is given, and the caller sees the mutation.
  Its outcome therefore holds the returned value, the contents of that dictionary and
  the creator object when the call returns, and the number of invocations of
  \<open>backtrack\<close> made (this one included).
\<close>

record outcome =
  result :: "assignment option"
  assignment_after :: assignment
  self_after :: CrosswordCreator
  calls :: nat

text \<open>\<open>if result:\<close> holds for a dictionary that is not empty.\<close>

fun truthy :: "assignment option \<Rightarrow> bool" where
  "truthy None = False"
| "truthy (Some a) = (a \<noteq> [])"

text \<open>\<open>assignment.pop(var)\<close>.\<close>

definition pop :: "Variable \<Rightarrow> assignment \<Rightarrow> error + assignment" where
  "pop var a = (case map_of a var of None \<Rightarrow> Inl KeyError | Some val \<Rightarrow> Inr (AList.delete var a))"

definition unassigned :: "CrosswordCreator \<Rightarrow> assignment \<Rightarrow> Variable set" where
  "unassigned cr a = fst ` set (domains cr) - fst ` set a"

lemma mrv_set:
  "mrv cr a ks = Inr triples \<Longrightarrow>
   set triples =
     (\<lambda>var. (var, length (the (map_of (domains cr) var)), length (neighbors (crossword cr) var)))
       ` {var \<in> set ks. map_of a var = None}"
proof (induction ks arbitrary: triples)
  case Nil
  then show ?case by simp
next
  case (Cons k ks)
  show ?case
  proof (cases "map_of a k = None")
    case False
    with Cons show ?thesis by auto
  next
    case True
    with Cons.prems obtain d rest where
      d: "map_of (domains cr) k = Some d" and
      rest: "mrv cr a ks = Inr rest" and
      tr: "triples = (k, length d, length (neighbors (crossword cr) k)) # rest"
      by (auto split: option.splits sum.splits)
    from Cons.IH [OF rest] True d show ?thesis
      unfolding tr by auto
  qed
qed

lemma mrv_total:
  "set ks \<subseteq> fst ` set (domains cr) \<Longrightarrow> \<exists>triples. mrv cr a ks = Inr triples"
proof (induction ks)
  case Nil
  show ?case by simp
next
  case (Cons k ks)
  then obtain triples where "mrv cr a ks = Inr triples" by auto
  moreover from Cons.prems obtain d where "map_of (domains cr) k = Some d"
    by (cases "map_of (domains cr) k") (auto simp: map_of_eq_None_iff)
  ultimately show ?case by simp
qed

lemma select_unassigned_variable_mem:
  assumes "select_unassigned_variable cr a = Inr var"
  obtains triples Dsize Nsize where
    "mrv cr a (map fst (domains cr)) = Inr triples"
    "(var, Dsize, Nsize) \<in> set triples"
    "\<forall>t \<in> set triples. (Dsize, Nsize) \<le> (fst (snd t), snd (snd t))"
proof -
  let ?key = "\<lambda>(var :: Variable, Dsize :: nat, Nsize :: nat). (Dsize, Nsize)"
  from assms obtain triples t rest where
    m: "mrv cr a (map fst (domains cr)) = Inr triples" and
    s: "sort_key ?key triples = t # rest" and
    t: "var = fst t"
    by (auto simp: select_unassigned_variable_def split: sum.splits list.splits)
  have "sorted (map ?key (sort_key ?key triples))" by (rule sorted_sort_key)
  then have "\<forall>u \<in> set rest. ?key t \<le> ?key u"
    unfolding s by simp
  moreover have set: "set triples = insert t (set rest)"
    using arg_cong [OF s, of set] by simp
  ultimately have "\<forall>u \<in> set triples. ?key t \<le> ?key u" by auto
  then have "\<forall>u \<in> set triples. (fst (snd t), snd (snd t)) \<le> (fst (snd u), snd (snd u))"
    by (simp add: case_prod_beta)
  moreover have "(var, fst (snd t), snd (snd t)) \<in> set triples"
    using set t by simp
  ultimately show thesis using m that by blast
qed

lemma select_unassigned_variable_unassigned:
  assumes "select_unassigned_variable cr a = Inr var"
  shows "var \<in> unassigned cr a"
proof -
  from assms obtain triples Dsize Nsize where
    m: "mrv cr a (map fst (domains cr)) = Inr triples" and
    t: "(var, Dsize, Nsize) \<in> set triples"
    by (rule select_unassigned_variable_mem)
  from t mrv_set [OF m] have "var \<in> fst ` set (domains cr)" and "map_of a var = None"
    by auto
  then show ?thesis
    by (simp add: unassigned_def map_of_eq_None_iff)
qed

lemma pop_keys: "pop var a = Inr a' \<Longrightarrow> fst ` set a' = fst ` set a - {var}"
  by (auto simp: pop_def AList.delete_eq split: option.splits)

text \<open>
  \<open>backtrack_values\<close> is the \<open>for val in ...\<close> loop of \<open>backtrack\<close>, from the value
  \<open>val\<close> on; \<open>n\<close> counts the invocations made so far.
\<close>

function backtrack :: "CrosswordCreator \<Rightarrow> assignment \<Rightarrow> error + outcome"
  and backtrack_values ::
    "CrosswordCreator \<Rightarrow> Variable \<Rightarrow> word list \<Rightarrow> assignment \<Rightarrow> nat \<Rightarrow> error + outcome" where
  "backtrack cr a =
     (if assignment_complete cr a then
        Inr \<lparr>result = Some a, assignment_after = a, self_after = cr, calls = 1\<rparr>
      else
        (case select_unassigned_variable cr a of
           Inl e \<Rightarrow> Inl e
         | Inr var \<Rightarrow>
             (case order_domain_values cr var a of
                Inl e \<Rightarrow> Inl e
              | Inr vals \<Rightarrow> backtrack_values cr var vals a 1)))"
| "backtrack_values cr var [] a n =
     Inr \<lparr>result = None, assignment_after = a, self_after = cr, calls = n\<rparr>"
| "backtrack_values cr var (val # vals) a n =
     (case consistent cr (AList.update var val a) of
        Inl e \<Rightarrow> Inl e
      | Inr ok \<Rightarrow>
          if ok then
            (case backtrack cr (AList.update var val a) of
               Inl e \<Rightarrow> Inl e
             | Inr out \<Rightarrow>
                 if truthy (result out) then Inr (out\<lparr>calls := n + calls out\<rparr>)
                 else
                   (case pop var (assignment_after out) of
                      Inl e \<Rightarrow> Inl e
                    | Inr a' \<Rightarrow> backtrack_values (self_after out) var vals a' (n + calls out)))
          else
            (case pop var (AList.update var val a) of
               Inl e \<Rightarrow> Inl e
             | Inr a' \<Rightarrow> backtrack_values cr var vals a' n))"
  by pat_completeness auto


lemma keys_after_pop:
  "A \<subseteq> B \<Longrightarrow> C = B - {v} \<Longrightarrow> C - {v} \<subseteq> D \<Longrightarrow> A - {v} \<subseteq> D"
  by blast

lemma keys_after_pop_update:
  "C = ({v} \<union> A) - {v} \<Longrightarrow> C - {v} \<subseteq> D \<Longrightarrow> A - {v} \<subseteq> D"
  by blast

lemma unassigned_after_pop:
  "A \<subseteq> B \<Longrightarrow> C = B - {v} \<Longrightarrow> K - C - {v} \<subseteq> K - A - {v}"
  by blast

lemma unassigned_after_pop_update:
  "C = ({v} \<union> A) - {v} \<Longrightarrow> K - C - {v} = K - A - {v}"
  by blast

lemma backtrack_frame_dom:
  "backtrack_backtrack_values_dom (Inl (cr, a)) \<Longrightarrow> backtrack cr a = Inr out \<Longrightarrow>
     self_after out = cr \<and> fst ` set a \<subseteq> fst ` set (assignment_after out)"
  "backtrack_backtrack_values_dom (Inr (cr, var, vals, a, n)) \<Longrightarrow>
     backtrack_values cr var vals a n = Inr out \<Longrightarrow>
     self_after out = cr \<and> fst ` set a - {var} \<subseteq> fst ` set (assignment_after out)"
proof (induction cr a and cr var vals a n arbitrary: out and out
    rule: backtrack_backtrack_values.pinduct)
  case (1 cr a)
  show ?case
  proof (cases "assignment_complete cr a")
    case True
    with 1 show ?thesis by (auto simp: backtrack.psimps)
  next
    case False
    with 1(1,3) obtain var vals where
      sel: "select_unassigned_variable cr a = Inr var" and
      ord: "order_domain_values cr var a = Inr vals" and
      run: "backtrack_values cr var vals a 1 = Inr out"
      by (auto simp: backtrack.psimps split: sum.splits)
    from 1(2) [OF False sel ord run]
    have "self_after out = cr" and sub: "fst ` set a - {var} \<subseteq> fst ` set (assignment_after out)"
      by simp_all
    moreover from select_unassigned_variable_unassigned [OF sel]
    have "var \<notin> fst ` set a" by (simp add: unassigned_def)
    ultimately show ?thesis by auto
  qed
next
  case (2 cr var a n)
  then show ?case
    by (auto simp: backtrack_values.psimps)
next
  case (3 cr var val vals a n)
  note dom = 3(1) and run = 3(5)
  note eq = backtrack_values.psimps(2) [OF dom]
  from run obtain ok where ok: "consistent cr (AList.update var val a) = Inr ok"
    by (auto simp: eq split: sum.splits)
  show ?case
  proof (cases ok)
    case True
    with run ok obtain ba where ba: "backtrack cr (AList.update var val a) = Inr ba"
      by (auto simp: eq split: sum.splits)
    from 3(2) [OF ok True ba]
    have s: "self_after ba = cr"
      and k: "fst ` set (AList.update var val a) \<subseteq> fst ` set (assignment_after ba)"
      by simp_all
    show ?thesis
    proof (cases "truthy (result ba)")
      case yes: True
      with run ok True ba have "out = ba\<lparr>calls := n + calls ba\<rparr>"
        by (simp add: eq)
      with s k show ?thesis by (auto simp: dom_update)
    next
      case no: False
      with run ok True ba obtain bb where
        bb: "pop var (assignment_after ba) = Inr bb" and
        rest: "backtrack_values (self_after ba) var vals bb (n + calls ba) = Inr out"
        by (auto simp: eq split: sum.splits)
      from 3(3) [OF ok True ba no bb rest]
      have s': "self_after out = self_after ba"
        and k': "fst ` set bb - {var} \<subseteq> fst ` set (assignment_after out)"
        by simp_all
      from k have "fst ` set a \<subseteq> fst ` set (assignment_after ba)"
        by (simp add: dom_update)
      then have "fst ` set a - {var} \<subseteq> fst ` set (assignment_after out)"
        using pop_keys [OF bb] k' by (rule keys_after_pop)
      with s s' show ?thesis by simp
    qed
  next
    case False
    with run ok obtain ba where
      ba: "pop var (AList.update var val a) = Inr ba" and
      rest: "backtrack_values cr var vals ba n = Inr out"
      by (auto simp: eq split: sum.splits)
    from 3(4) [OF ok False ba rest]
    have s': "self_after out = cr"
      and k': "fst ` set ba - {var} \<subseteq> fst ` set (assignment_after out)"
      by simp_all
    from pop_keys [OF ba] have "fst ` set ba = ({var} \<union> fst ` set a) - {var}"
      by (simp add: dom_update)
    then have "fst ` set a - {var} \<subseteq> fst ` set (assignment_after out)"
      using k' by (rule keys_after_pop_update)
    with s' show ?thesis by simp
  qed
qed

lemma finite_unassigned: "finite (unassigned cr a)"
  by (simp add: unassigned_def)

lemma unassigned_update: "unassigned cr (AList.update var val a) = unassigned cr a - {var}"
  by (auto simp: unassigned_def dom_update)

termination backtrack
proof (relation "inv_image (less_than <*lex*> less_than)
    (\<lambda>s. case s of
        Inl (cr, a) \<Rightarrow> (2 * card (unassigned cr a), 0)
      | Inr (cr, var, vals, a, n) \<Rightarrow> (2 * card (unassigned cr a - {var}) + 1, length vals))",
    goal_cases)
  case 1
  show ?case by (intro wf_inv_image wf_lex_prod wf_less_than)
next
  case (2 cr a var vals)
  from select_unassigned_variable_unassigned [OF 2(2)]
  have "card (unassigned cr a - {var}) < card (unassigned cr a)"
    by (intro card_Diff1_less finite_unassigned)
  then show ?case by simp
next
  case (3 cr var val vals a n ok)
  show ?case by (simp add: unassigned_update)
next
  case (4 cr var val vals a n ok ba bb)
  from backtrack_frame_dom(1) [OF 4(6) 4(3)]
  have s: "self_after ba = cr"
    and k: "fst ` set (AList.update var val a) \<subseteq> fst ` set (assignment_after ba)"
    by simp_all
  from k have "fst ` set a \<subseteq> fst ` set (assignment_after ba)"
    by (simp add: dom_update)
  then have "unassigned cr bb - {var} \<subseteq> unassigned cr a - {var}"
    unfolding unassigned_def using pop_keys [OF 4(5)] by (rule unassigned_after_pop)
  then have "card (unassigned cr bb - {var}) \<le> card (unassigned cr a - {var})"
    by (intro card_mono finite_Diff finite_unassigned)
  with s show ?case by auto
next
  case (5 cr var val vals a n ok ba)
  from pop_keys [OF 5(3)] have "fst ` set ba = ({var} \<union> fst ` set a) - {var}"
    by (simp add: dom_update)
  then have "unassigned cr ba - {var} = unassigned cr a - {var}"
    unfolding unassigned_def by (rule unassigned_after_pop_update)
  then show ?case by simp
qed

subsection \<open>The solver\<close>

text \<open>
  \<open>solve\<close>: node consistency, then AC-3 on every arc, then the search from the empty
  assignment. The value returned by \<open>ac3\<close> is not looked at.
\<close>

definition solve :: "CrosswordCreator \<Rightarrow> error + outcome" where
  "solve cr =
     (case ac3 (enforce_node_consistency cr) None of
        Inl e \<Rightarrow> Inl e
      | Inr (arc_consistent, cr') \<Rightarrow> backtrack cr' [])"

subsection \<open>Example puzzles\<close>

text \<open>
  A four-letter slot across and a three-letter slot down that crosses it at its third
  cell; no word pair agrees on the shared cell.
\<close>

definition ex2_A :: Variable where
  "ex2_A = \<lparr>var_i = 0, var_j = 0, var_direction = ACROSS, var_length = 4\<rparr>"

definition ex2_B :: Variable where
  "ex2_B = \<lparr>var_i = 0, var_j = 2, var_direction = DOWN, var_length = 3\<rparr>"

definition ex2 :: Crossword where
  "ex2 = \<lparr>variables = [ex2_A, ex2_B], words = [''rain'', ''not'', ''now''],
          overlaps = map_of [((ex2_A, ex2_B), Some (2, 0)), ((ex2_B, ex2_A), Some (0, 2))]\<rparr>"

text \<open>
  A three-letter slot across the top row, with a three-letter slot down from its first
  cell and another down from its last cell. The two down slots share no cell.
\<close>

definition ex3_A :: Variable where
  "ex3_A = \<lparr>var_i = 0, var_j = 0, var_direction = ACROSS, var_length = 3\<rparr>"

definition ex3_B :: Variable where
  "ex3_B = \<lparr>var_i = 0, var_j = 0, var_direction = DOWN, var_length = 3\<rparr>"

definition ex3_C :: Variable where
  "ex3_C = \<lparr>var_i = 0, var_j = 2, var_direction = DOWN, var_length = 3\<rparr>"

definition ex3 :: Crossword where
  "ex3 = \<lparr>variables = [ex3_A, ex3_B, ex3_C], words = [''ada'', ''aha'', ''aba''],
          overlaps = map_of
            [((ex3_A, ex3_B), Some (0, 0)), ((ex3_B, ex3_A), Some (0, 0)),
             ((ex3_A, ex3_C), Some (2, 0)), ((ex3_C, ex3_A), Some (0, 2)),
             ((ex3_B, ex3_C), None), ((ex3_C, ex3_B), None)]\<rparr>"

text \<open>A puzzle without slots.\<close>

definition ex0 :: Crossword where
  "ex0 = \<lparr>variables = [], words = [''cat'', ''dog''], overlaps = (\<lambda>p. None)\<rparr>"

text \<open>The creator of \<open>ex2\<close> after node consistency, and after the failed propagation.\<close>

definition ex2_nc :: CrosswordCreator where
  "ex2_nc = \<lparr>crossword = ex2, domains = [(ex2_A, [''rain'']), (ex2_B, [''not'', ''now''])]\<rparr>"

definition ex2_ac :: CrosswordCreator where
  "ex2_ac = \<lparr>crossword = ex2, domains = [(ex2_A, []), (ex2_B, [''not'', ''now''])]\<rparr>"

text \<open>
  A three-letter slot across and a four-letter slot down that share their first cell.
  \<open>ex4_nc\<close> is the creator after node consistency, \<open>ex4_ac\<close> after propagation.
\<close>

definition ex4_A :: Variable where
  "ex4_A = \<lparr>var_i = 0, var_j = 0, var_direction = ACROSS, var_length = 3\<rparr>"

definition ex4_B :: Variable where
  "ex4_B = \<lparr>var_i = 0, var_j = 0, var_direction = DOWN, var_length = 4\<rparr>"

definition ex4 :: Crossword where
  "ex4 = \<lparr>variables = [ex4_A, ex4_B], words = [''cat'', ''dog'', ''coal''],
          overlaps = map_of [((ex4_A, ex4_B), Some (0, 0)), ((ex4_B, ex4_A), Some (0, 0))]\<rparr>"

definition ex4_nc :: CrosswordCreator where
  "ex4_nc = \<lparr>crossword = ex4, domains = [(ex4_A, [''cat'', ''dog'']), (ex4_B, [''coal''])]\<rparr>"

definition ex4_ac :: CrosswordCreator where
  "ex4_ac = \<lparr>crossword = ex4, domains = [(ex4_A, [''cat'']), (ex4_B, [''coal''])]\<rparr>"

text \<open>Two three-letter slots across that share no cell, and a single word.\<close>

definition ex5_A :: Variable where
  "ex5_A = \<lparr>var_i = 0, var_j = 0, var_direction = ACROSS, var_length = 3\<rparr>"

definition ex5_B :: Variable where
  "ex5_B = \<lparr>var_i = 2, var_j = 0, var_direction = ACROSS, var_length = 3\<rparr>"

definition ex5 :: Crossword where
  "ex5 = \<lparr>variables = [ex5_A, ex5_B], words = [''abc''],
          overlaps = map_of [((ex5_A, ex5_B), None), ((ex5_B, ex5_A), None)]\<rparr>"

subsection \<open>Predicates of the specification\<close>

text \<open>Two words agree at the letter positions \<open>i\<close> and \<open>j\<close> of an overlap.\<close>

definition agree :: "nat \<Rightarrow> nat \<Rightarrow> word \<Rightarrow> word \<Rightarrow> bool" where
  "agree i j w u \<longleftrightarrow> i < length w \<and> j < length u \<and> w ! i = u ! j"

text \<open>Every word of every domain has the length of its variable.\<close>

definition node_consistent :: "CrosswordCreator \<Rightarrow> bool" where
  "node_consistent cr =
     list_all (\<lambda>var. case map_of (domains cr) var of
                        None \<Rightarrow> True
                      | Some d \<Rightarrow> list_all (\<lambda>w. length w = var_length var) d)
       (map fst (domains cr))"

text \<open>
  The contract of the overlap table: it has an entry for every ordered pair of distinct
  variables of the puzzle, and the entry of \<open>(y, x)\<close> is the entry of \<open>(x, y)\<close> with
  its two positions swapped.
\<close>

definition symmetric_overlaps :: "Crossword \<Rightarrow> bool" where
  "symmetric_overlaps cw =
     list_all (\<lambda>x. list_all (\<lambda>y. x = y \<or>
         (case overlaps cw (x, y) of
            None \<Rightarrow> False
          | Some ov \<Rightarrow> overlaps cw (y, x) = Some (map_option prod.swap ov)))
       (variables cw)) (variables cw)"

text \<open>The positions of an overlap lie inside the two slots.\<close>

definition bounded_overlaps :: "Crossword \<Rightarrow> bool" where
  "bounded_overlaps cw =
     list_all (\<lambda>x. list_all (\<lambda>y.
         (case overlaps cw (x, y) of
            Some (Some (i, j)) \<Rightarrow> i < var_length x \<and> j < var_length y
          | _ \<Rightarrow> True))
       (variables cw)) (variables cw)"

text \<open>
  A creator is well formed when the keys of its domain map are the variables of its
  puzzle (as \<open>__init__\<close> makes them) and the overlap table keeps its contract.
\<close>

definition well_formed :: "CrosswordCreator \<Rightarrow> bool" where
  "well_formed cr \<longleftrightarrow>
     set (map fst (domains cr)) = set (variables (crossword cr)) \<and>
     symmetric_overlaps (crossword cr)"

text \<open>The arc \<open>(x, y)\<close> is settled: revising it changes nothing.\<close>

definition arc_ok :: "CrosswordCreator \<Rightarrow> Variable \<Rightarrow> Variable \<Rightarrow> bool" where
  "arc_ok cr x y \<longleftrightarrow> revise cr x y = Inr (False, cr)"

text \<open>
  The domains of \<open>cr'\<close> are those of \<open>cr\<close> with words removed: the same keys in the
  same order, and every word of a domain of \<open>cr'\<close> is in that domain of \<open>cr\<close>.
\<close>

definition narrowed :: "CrosswordCreator \<Rightarrow> CrosswordCreator \<Rightarrow> bool" where
  "narrowed cr cr' \<longleftrightarrow>
     map fst (domains cr') = map fst (domains cr) \<and>
     list_all (\<lambda>v. case map_of (domains cr') v of
                      None \<Rightarrow> True
                    | Some d' \<Rightarrow>
                        (case map_of (domains cr) v of
                           None \<Rightarrow> False
                         | Some d \<Rightarrow> list_all (\<lambda>w. w \<in> set d) d'))
       (map fst (domains cr'))"

text \<open>An assignment is complete when it gives a word to every variable of the puzzle.\<close>

definition complete_assignment :: "Crossword \<Rightarrow> assignment \<Rightarrow> bool" where
  "complete_assignment cw a = list_all (\<lambda>v. map_of a v \<noteq> None) (variables cw)"

text \<open>
  An assignment is consistent when (a) every assigned word has the length of its
  variable, (b) for every assigned variable and every assigned neighbor of it the two
  words agree at the positions of their overlap, and (c) the assigned words are pairwise
  distinct.
\<close>

definition consistent_assignment :: "Crossword \<Rightarrow> assignment \<Rightarrow> bool" where
  "consistent_assignment cw a \<longleftrightarrow>
     list_all (\<lambda>(v, w). length w = var_length v) a \<and>
     list_all (\<lambda>(x, wx).
         list_all (\<lambda>y. case map_of a y of
                          None \<Rightarrow> True
                        | Some wy \<Rightarrow>
                            (case overlaps cw (x, y) of
                               Some (Some (i, j)) \<Rightarrow> agree i j wx wy
                             | _ \<Rightarrow> True))
           (neighbors cw x)) a \<and>
     distinct (map snd a)"

section \<open>Properties\<close>

subsection \<open>Failed propagation and the search\<close>

lemma ac3_loop_False_empty:
  "ac3_loop cr queue = Inr (False, cr') \<Longrightarrow> \<exists>x. map_of (domains cr') x = Some []"
proof (induction cr queue rule: ac3_loop.induct)
  case (1 cr)
  then show ?case by simp
next
  case (2 cr x y queue)
  from 2(3) obtain revised cr1 where r: "revise cr x y = Inr (revised, cr1)"
    by (auto split: sum.splits)
  show ?case
  proof (cases revised)
    case False
    with 2(3) r have "ac3_loop cr1 queue = Inr (False, cr')" by simp
    with 2(2) r False show ?thesis by simp
  next
    case True
    with 2(3) r obtain xd where xd: "map_of (domains cr1) x = Some xd"
      by (auto split: option.splits)
    show ?thesis
    proof (cases "xd = []")
      case True
      with 2(3) r \<open>revised\<close> xd show ?thesis by auto
    next
      case False
      with 2(3) r \<open>revised\<close> xd 2(1) [OF r _ \<open>revised\<close> xd False] show ?thesis by simp
    qed
  qed
qed

lemma select_unassigned_variable_total:
  assumes "\<not> assignment_complete cr a"
  shows "\<exists>var. select_unassigned_variable cr a = Inr var"
proof -
  obtain triples where m: "mrv cr a (map fst (domains cr)) = Inr triples"
    using mrv_total [of "map fst (domains cr)" cr a] by auto
  from assms obtain k where "k \<in> fst ` set (domains cr)" "map_of a k = None"
    by (auto simp: assignment_complete_def list_all_iff)
  then have "(k, length (the (map_of (domains cr) k)), length (neighbors (crossword cr) k))
      \<in> set triples"
    unfolding mrv_set [OF m] by simp
  then have "triples \<noteq> []" by auto
  then have "sort_key (\<lambda>(var, Dsize, Nsize). (Dsize, Nsize)) triples \<noteq> []"
    by (metis length_sort length_0_conv)
  then show ?thesis
    by (auto simp: select_unassigned_variable_def m split: list.splits)
qed

lemma backtrack_empty_domain:
  assumes "map_of (domains cr) x = Some []"
  shows "backtrack cr [] = Inr \<lparr>result = None, assignment_after = [], self_after = cr, calls = 1\<rparr>"
proof -
  from assms have xk: "x \<in> fst ` set (domains cr)"
    by (metis map_of_eq_None_iff option.distinct(1))
  then have inc: "\<not> assignment_complete cr []"
    by (auto simp: assignment_complete_def list_all_iff)
  then obtain var where sel: "select_unassigned_variable cr [] = Inr var"
    using select_unassigned_variable_total by blast
  then obtain triples Dsize Nsize where
    m: "mrv cr [] (map fst (domains cr)) = Inr triples" and
    t: "(var, Dsize, Nsize) \<in> set triples" and
    least: "\<forall>t \<in> set triples. (Dsize, Nsize) \<le> (fst (snd t), snd (snd t))"
    by (rule select_unassigned_variable_mem)
  note set = mrv_set [OF m]
  from xk assms have "(x, 0, length (neighbors (crossword cr) x)) \<in> set triples"
    unfolding set by force
  with least have "Dsize = 0" by force
  moreover from t have "var \<in> fst ` set (domains cr)"
    and "Dsize = length (the (map_of (domains cr) var))"
    unfolding set by auto
  ultimately have "map_of (domains cr) var = Some []"
    by (cases "map_of (domains cr) var") (auto simp: map_of_eq_None_iff)
  then have "order_domain_values cr var [] = Inr []"
    by (simp add: order_domain_values_def)
  with inc sel show ?thesis by simp
qed

text \<open>
  What \<open>select_unassigned_variable\<close> returns: an unassigned variable whose pair
  (domain size, number of neighbors) is least in the lexicographic order, so among the
  variables of minimal domain size one with the fewest neighbors.
\<close>

lemma select_unassigned_variable_least:
  assumes "select_unassigned_variable cr a = Inr var"
    and "v \<in> fst ` set (domains cr)" and "map_of a v = None"
  shows "map_of a var = None \<and>
         (length (the (map_of (domains cr) var)), length (neighbors (crossword cr) var))
           \<le> (length (the (map_of (domains cr) v)), length (neighbors (crossword cr) v))"
proof -
  from assms(1) obtain triples Dsize Nsize where
    m: "mrv cr a (map fst (domains cr)) = Inr triples" and
    t: "(var, Dsize, Nsize) \<in> set triples" and
    least: "\<forall>t \<in> set triples. (Dsize, Nsize) \<le> (fst (snd t), snd (snd t))"
    by (rule select_unassigned_variable_mem)
  note set = mrv_set [OF m]
  from t have un: "map_of a var = None"
    and D: "Dsize = length (the (map_of (domains cr) var))"
    and N: "Nsize = length (neighbors (crossword cr) var)"
    unfolding set by auto
  from assms(2,3)
  have "(v, length (the (map_of (domains cr) v)), length (neighbors (crossword cr) v))
      \<in> set triples"
    unfolding set by simp
  with least have "(Dsize, Nsize)
      \<le> (length (the (map_of (domains cr) v)), length (neighbors (crossword cr) v))"
    by force
  with un D N show ?thesis by simp
qed

subsection \<open>Association lists\<close>

lemma map_entry_keys: "map fst (AList.map_entry k f al) = map fst al"
  by (induction al) auto

lemma map_entry_compose:
  "AList.map_entry k f (AList.map_entry k g al) = AList.map_entry k (\<lambda>d. f (g d)) al"
  by (induction al) auto

lemma map_entry_cong_lookup:
  "(\<And>d. map_of al k = Some d \<Longrightarrow> f d = g d) \<Longrightarrow> AList.map_entry k f al = AList.map_entry k g al"
  by (induction al) auto

lemma map_entry_ident: "AList.map_entry k (\<lambda>d. d) al = al"
  by (induction al) auto

lemma map_entry_same:
  "(\<And>d. map_of al k = Some d \<Longrightarrow> f d = d) \<Longrightarrow> AList.map_entry k f al = al"
  using map_entry_cong_lookup [of al k f "\<lambda>d. d"] by (simp add: map_entry_ident)

lemma map_of_map_entry_eq:
  "map_of (AList.map_entry k f al) v =
     (if v = k then map_option f (map_of al k) else map_of al v)"
  by (simp add: map_of_map_entry split: option.splits)

lemma lookup_Some_key: "map_of al k = Some d \<Longrightarrow> k \<in> fst ` set al"
  by (metis map_of_eq_None_iff option.distinct(1))

lemma key_lookup_Some: "k \<in> fst ` set al \<Longrightarrow> \<exists>d. map_of al k = Some d"
  by (cases "map_of al k") (auto simp: map_of_eq_None_iff)

subsection \<open>Node consistency\<close>

lemma remove_word_crossword [simp]: "crossword (remove_word cr x w) = crossword cr"
  by (simp add: remove_word_def)

lemma remove_word_keys [simp]: "map fst (domains (remove_word cr x w)) = map fst (domains cr)"
  by (simp add: remove_word_def map_entry_keys)

lemma remove_word_lookup:
  "map_of (domains (remove_word cr x w)) v =
     (if v = x then map_option (removeAll w) (map_of (domains cr) x) else map_of (domains cr) v)"
  by (simp add: remove_word_def map_of_map_entry_eq)

lemma prune_lengths_crossword [simp]: "crossword (prune_lengths var dc cr) = crossword cr"
  unfolding prune_lengths_def by (induction dc arbitrary: cr) auto

lemma prune_lengths_keys [simp]:
  "map fst (domains (prune_lengths var dc cr)) = map fst (domains cr)"
  unfolding prune_lengths_def by (induction dc arbitrary: cr) auto

lemma prune_lengths_lookup:
  "map_of (domains (prune_lengths var dc cr)) v =
     (if v = var then
        map_option (filter (\<lambda>w. \<not> (w \<in> set dc \<and> length w \<noteq> var_length var)))
          (map_of (domains cr) var)
      else map_of (domains cr) v)"
proof (induction dc arbitrary: cr)
  case Nil
  show ?case by (simp add: prune_lengths_def option.map_ident)
next
  case (Cons w dc)
  have step: "prune_lengths var (w # dc) cr =
      prune_lengths var dc (if length w \<noteq> var_length var then remove_word cr var w else cr)"
    by (simp add: prune_lengths_def)
  show ?case
  proof (cases "length w \<noteq> var_length var")
    case False
    then have "\<And>u. (u \<in> set (w # dc) \<and> length u \<noteq> var_length var)
        = (u \<in> set dc \<and> length u \<noteq> var_length var)"
      by auto
    with False show ?thesis
      unfolding step by (simp add: Cons.IH)
  next
    case True
    have "\<And>d. filter (\<lambda>u. \<not> (u \<in> set dc \<and> length u \<noteq> var_length var)) (removeAll w d)
        = filter (\<lambda>u. \<not> (u \<in> set (w # dc) \<and> length u \<noteq> var_length var)) d"
      using True by (auto simp: removeAll_filter_not_eq intro: filter_cong)
    with True show ?thesis
      unfolding step
      by (simp add: Cons.IH remove_word_lookup option.map_comp comp_def)
  qed
qed

lemma enforce_fold_frame:
  "crossword (fold (\<lambda>var s. case map_of (domains s) var of
                               None \<Rightarrow> s
                             | Some domain_copy \<Rightarrow> prune_lengths var domain_copy s) ks cr)
     = crossword cr \<and>
   map fst (domains (fold (\<lambda>var s. case map_of (domains s) var of
                               None \<Rightarrow> s
                             | Some domain_copy \<Rightarrow> prune_lengths var domain_copy s) ks cr))
     = map fst (domains cr)"
  by (induction ks arbitrary: cr) (auto split: option.splits)

lemma enforce_fold_lookup:
  "map_of (domains (fold (\<lambda>var s. case map_of (domains s) var of
                               None \<Rightarrow> s
                             | Some domain_copy \<Rightarrow> prune_lengths var domain_copy s) ks cr)) v
     = (if v \<in> set ks then
          map_option (filter (\<lambda>w. length w = var_length v)) (map_of (domains cr) v)
        else map_of (domains cr) v)"
proof (induction ks arbitrary: cr)
  case Nil
  show ?case by simp
next
  case (Cons k ks)
  let ?s = "case map_of (domains cr) k of None \<Rightarrow> cr | Some dc \<Rightarrow> prune_lengths k dc cr"
  have look: "map_of (domains ?s) u =
      (if u = k then map_option (filter (\<lambda>w. length w = var_length k)) (map_of (domains cr) k)
       else map_of (domains cr) u)" for u
  proof (cases "map_of (domains cr) k")
    case None
    then show ?thesis by simp
  next
    case (Some dc)
    have "filter (\<lambda>w. \<not> (w \<in> set dc \<and> length w \<noteq> var_length k)) dc
        = filter (\<lambda>w. length w = var_length k) dc"
      by (auto intro: filter_cong)
    with Some show ?thesis by (simp add: prune_lengths_lookup)
  qed
  show ?case
    by (simp add: Cons.IH look option.map_comp comp_def)
qed

lemma enforce_node_consistency_crossword [simp]:
  "crossword (enforce_node_consistency cr) = crossword cr"
  unfolding enforce_node_consistency_def using enforce_fold_frame by blast

lemma enforce_node_consistency_keys [simp]:
  "map fst (domains (enforce_node_consistency cr)) = map fst (domains cr)"
  unfolding enforce_node_consistency_def using enforce_fold_frame by blast

lemma enforce_node_consistency_lookup:
  "map_of (domains (enforce_node_consistency cr)) v =
     map_option (filter (\<lambda>w. length w = var_length v)) (map_of (domains cr) v)"
proof (cases "map_of (domains cr) v")
  case None
  show ?thesis
    by (simp only: enforce_node_consistency_def enforce_fold_lookup None option.map(1) if_cancel)
next
  case (Some d)
  then have "v \<in> fst ` set (domains cr)" by (rule lookup_Some_key)
  then have "v \<in> set (map fst (domains cr))" by simp
  then show ?thesis
    by (simp only: enforce_node_consistency_def enforce_fold_lookup if_True)
qed

subsection \<open>Arc revision\<close>

lemma valid_against_error: "valid_against i j w yd = Inl e \<Longrightarrow> e = IndexError"
  by (induction yd) (auto split: if_splits)

lemma valid_against_True:
  "valid_against i j w yd = Inr True \<Longrightarrow> \<exists>u\<in>set yd. agree i j w u"
  by (induction yd) (auto simp: agree_def split: if_splits)

lemma valid_against_False:
  "valid_against i j w yd = Inr False \<Longrightarrow> \<forall>u\<in>set yd. \<not> agree i j w u"
  by (induction yd) (auto simp: agree_def split: if_splits)

lemma valid_against_in_range:
  "\<forall>u\<in>set yd. j < length u \<Longrightarrow> i < length w \<Longrightarrow>
   valid_against i j w yd = Inr (\<exists>u\<in>set yd. w ! i = u ! j)"
  by (induction yd) auto

lemma valid_against_first:
  "valid_against i j w yd = Inr True \<Longrightarrow> \<exists>u. find (agree i j w) yd = Some u"
  by (induction yd) (auto simp: agree_def split: if_splits)

lemma valid_against_filter:
  "valid_against i j w yd = Inr True \<Longrightarrow> find (agree i j w) yd = Some u \<Longrightarrow> P u \<Longrightarrow>
   valid_against i j w (filter P yd) = Inr True"
proof (induction yd)
  case Nil
  then show ?case by simp
next
  case (Cons u0 yd)
  from Cons.prems(1) have r: "i < length w" "j < length u0"
    by (auto split: if_splits)
  show ?case
  proof (cases "w ! i = u0 ! j")
    case True
    with r have "agree i j w u0" by (simp add: agree_def)
    with Cons.prems(2) have "u = u0" by simp
    with Cons.prems(3) True r show ?thesis by simp
  next
    case False
    with r have "\<not> agree i j w u0" by (simp add: agree_def)
    with Cons.prems(2) have f: "find (agree i j w) yd = Some u" by simp
    from Cons.prems(1) False r have "valid_against i j w yd = Inr True" by simp
    from Cons.IH [OF this f Cons.prems(3)] False r show ?thesis by simp
  qed
qed

lemma revise_loop_frame:
  "revise_loop cr x y i j ws rv = Inr (r, cr') \<Longrightarrow>
   crossword cr' = crossword cr \<and> map fst (domains cr') = map fst (domains cr)"
proof (induction ws arbitrary: cr rv)
  case Nil
  then show ?case by simp
next
  case (Cons w ws)
  from Cons.prems obtain yd v where
    step: "(if \<not> v then revise_loop (remove_word cr x w) x y i j ws True
            else revise_loop cr x y i j ws rv) = Inr (r, cr')"
    by (auto split: option.splits sum.splits)
  show ?case
  proof (cases v)
    case True
    with step Cons.IH show ?thesis by simp
  next
    case False
    with step have "revise_loop (remove_word cr x w) x y i j ws True = Inr (r, cr')" by simp
    from Cons.IH [OF this] show ?thesis by simp
  qed
qed

lemma revise_frame:
  "revise cr x y = Inr (r, cr') \<Longrightarrow>
   crossword cr' = crossword cr \<and> map fst (domains cr') = map fst (domains cr)"
  by (auto simp: revise_def split: option.splits dest: revise_loop_frame)

lemma revise_loop_shrinks:
  "revise_loop cr x y i j ws rv = Inr (r, cr') \<Longrightarrow> map_of (domains cr') v = Some d' \<Longrightarrow>
   \<exists>d. map_of (domains cr) v = Some d \<and> set d' \<subseteq> set d"
proof (induction ws arbitrary: cr rv)
  case Nil
  then show ?case by simp
next
  case (Cons w ws)
  from Cons.prems(1) obtain yd b where
    step: "(if \<not> b then revise_loop (remove_word cr x w) x y i j ws True
            else revise_loop cr x y i j ws rv) = Inr (r, cr')"
    by (auto split: option.splits sum.splits)
  show ?case
  proof (cases b)
    case True
    with step Cons.IH Cons.prems(2) show ?thesis by simp
  next
    case False
    with step have "revise_loop (remove_word cr x w) x y i j ws True = Inr (r, cr')" by simp
    from Cons.IH [OF this Cons.prems(2)] obtain d where
      d: "map_of (domains (remove_word cr x w)) v = Some d" "set d' \<subseteq> set d"
      by blast
    then show ?thesis
      by (auto simp: remove_word_lookup split: if_splits)
  qed
qed

lemma revise_shrinks:
  "revise cr x y = Inr (r, cr') \<Longrightarrow> map_of (domains cr') v = Some d' \<Longrightarrow>
   \<exists>d. map_of (domains cr) v = Some d \<and> set d' \<subseteq> set d"
  by (auto simp: revise_def split: option.splits dest: revise_loop_shrinks)

lemma revise_loop_eq:
  assumes "x \<noteq> y" and "map_of (domains cr) y = Some yd"
  shows "revise_loop cr x y i j ws rv =
    (if \<forall>w\<in>set ws. valid_against i j w yd \<noteq> Inl IndexError then
       Inr (rv \<or> (\<exists>w\<in>set ws. valid_against i j w yd = Inr False),
            cr\<lparr>domains := AList.map_entry x
                  (filter (\<lambda>w. \<not> (w \<in> set ws \<and> valid_against i j w yd = Inr False)))
                  (domains cr)\<rparr>)
     else Inl IndexError)"
  using assms(2)
proof (induction ws arbitrary: cr rv)
  case Nil
  have "AList.map_entry x (filter (\<lambda>w. True)) (domains cr) = domains cr"
    by (rule map_entry_same) simp
  then show ?case by simp
next
  case (Cons w ws)
  show ?case
  proof (cases "valid_against i j w yd")
    case (Inl e)
    then have "e = IndexError" by (rule valid_against_error)
    with Inl Cons.prems show ?thesis by simp
  next
    case (Inr b)
    show ?thesis
    proof (cases b)
      case True
      have "(\<lambda>u. \<not> (u \<in> set (w # ws) \<and> valid_against i j u yd = Inr False))
          = (\<lambda>u. \<not> (u \<in> set ws \<and> valid_against i j u yd = Inr False))"
        using Inr True by auto
      with Inr True Cons.prems Cons.IH [OF Cons.prems] show ?thesis by simp
    next
      case False
      let ?cr1 = "remove_word cr x w"
      have y1: "map_of (domains ?cr1) y = Some yd"
        using Cons.prems assms(1) by (simp add: remove_word_lookup)
      have "filter (\<lambda>u. \<not> (u \<in> set ws \<and> valid_against i j u yd = Inr False)) (removeAll w d)
          = filter (\<lambda>u. \<not> (u \<in> set (w # ws) \<and> valid_against i j u yd = Inr False)) d" for d
        using Inr False by (auto simp: removeAll_filter_not_eq intro: filter_cong)
      then have "AList.map_entry x
            (filter (\<lambda>u. \<not> (u \<in> set ws \<and> valid_against i j u yd = Inr False)))
            (domains ?cr1)
          = AList.map_entry x
            (filter (\<lambda>u. \<not> (u \<in> set (w # ws) \<and> valid_against i j u yd = Inr False)))
            (domains cr)"
        by (simp add: remove_word_def map_entry_compose)
      moreover have "?cr1\<lparr>domains := al\<rparr> = cr\<lparr>domains := al\<rparr>" for al
        by (simp add: remove_word_def)
      ultimately show ?thesis
        using Inr False Cons.prems Cons.IH [OF y1] by simp
    qed
  qed
qed

lemma revise_eq:
  assumes "x \<noteq> y" and "map_of (domains cr) x = Some xd" and "map_of (domains cr) y = Some yd"
    and "overlaps (crossword cr) (x, y) = Some (Some (i, j))"
  shows "revise cr x y =
    (if \<forall>w\<in>set xd. valid_against i j w yd \<noteq> Inl IndexError then
       Inr (\<exists>w\<in>set xd. valid_against i j w yd = Inr False,
            cr\<lparr>domains := AList.map_entry x
                  (filter (\<lambda>w. valid_against i j w yd = Inr True)) (domains cr)\<rparr>)
     else Inl IndexError)"
proof (cases "\<forall>w\<in>set xd. valid_against i j w yd \<noteq> Inl IndexError")
  case False
  show ?thesis
    using assms by (simp add: revise_def revise_loop_eq False)
next
  case True
  have b: "(valid_against i j w yd = Inr True) = (valid_against i j w yd \<noteq> Inr False)"
    if "w \<in> set xd" for w
  proof (cases "valid_against i j w yd")
    case (Inl e)
    with valid_against_error [OF Inl] True that show ?thesis by auto
  next
    case (Inr v)
    then show ?thesis by auto
  qed
  have "AList.map_entry x
          (filter (\<lambda>w. \<not> (w \<in> set xd \<and> valid_against i j w yd = Inr False))) (domains cr)
      = AList.map_entry x (filter (\<lambda>w. valid_against i j w yd = Inr True)) (domains cr)"
  proof (rule map_entry_cong_lookup)
    fix d assume "map_of (domains cr) x = Some d"
    with assms(2) have "d = xd" by simp
    then show "filter (\<lambda>w. \<not> (w \<in> set xd \<and> valid_against i j w yd = Inr False)) d
        = filter (\<lambda>w. valid_against i j w yd = Inr True) d"
      using b by (auto intro: filter_cong)
  qed
  then show ?thesis
    using assms by (simp add: revise_def revise_loop_eq True)
qed

lemma valid_against_Inr_iff:
  "valid_against i j w yd = Inr b \<Longrightarrow> b = (\<exists>u\<in>set yd. agree i j w u)"
  using valid_against_True [of i j w yd] valid_against_False [of i j w yd]
  by (cases b) auto

lemma revise_result:
  assumes "x \<noteq> y" and "map_of (domains cr) x = Some xd" and "map_of (domains cr) y = Some yd"
    and "overlaps (crossword cr) (x, y) = Some (Some (i, j))"
    and "revise cr x y = Inr (r, cr')"
  shows "cr' = cr\<lparr>domains := AList.map_entry x
                  (filter (\<lambda>w. \<exists>u\<in>set yd. agree i j w u)) (domains cr)\<rparr>"
    and "r = (\<exists>w\<in>set xd. \<not> (\<exists>u\<in>set yd. agree i j w u))"
proof -
  note eq = revise_eq [OF assms(1-4)]
  from assms(5) have all: "\<forall>w\<in>set xd. valid_against i j w yd \<noteq> Inl IndexError"
    unfolding eq by (auto split: if_splits)
  have iff: "(valid_against i j w yd = Inr True) = (\<exists>u\<in>set yd. agree i j w u)"
    and iff': "(valid_against i j w yd = Inr False) = (\<not> (\<exists>u\<in>set yd. agree i j w u))"
    if "w \<in> set xd" for w
  proof -
    from all that obtain b where b: "valid_against i j w yd = Inr b"
      using valid_against_error by (cases "valid_against i j w yd") auto
    from valid_against_Inr_iff [OF b] b
    show "(valid_against i j w yd = Inr True) = (\<exists>u\<in>set yd. agree i j w u)"
      and "(valid_against i j w yd = Inr False) = (\<not> (\<exists>u\<in>set yd. agree i j w u))"
      by auto
  qed
  have "AList.map_entry x (filter (\<lambda>w. valid_against i j w yd = Inr True)) (domains cr)
      = AList.map_entry x (filter (\<lambda>w. \<exists>u\<in>set yd. agree i j w u)) (domains cr)"
  proof (rule map_entry_cong_lookup)
    fix d assume "map_of (domains cr) x = Some d"
    with assms(2) have d: "d = xd" by simp
    show "filter (\<lambda>w. valid_against i j w yd = Inr True) d
        = filter (\<lambda>w. \<exists>u\<in>set yd. agree i j w u) d"
      unfolding d by (rule filter_cong [OF refl]) (rule iff)
  qed
  with assms(5) all
  show "cr' = cr\<lparr>domains := AList.map_entry x
                  (filter (\<lambda>w. \<exists>u\<in>set yd. agree i j w u)) (domains cr)\<rparr>"
    unfolding eq by simp
  from assms(5) all have "r = (\<exists>w\<in>set xd. valid_against i j w yd = Inr False)"
    unfolding eq by simp
  with iff' show "r = (\<exists>w\<in>set xd. \<not> (\<exists>u\<in>set yd. agree i j w u))" by auto
qed

lemma revise_total:
  assumes "x \<noteq> y" and "map_of (domains cr) x = Some xd" and "map_of (domains cr) y = Some yd"
    and "overlaps (crossword cr) (x, y) = Some ov"
    and "\<And>i j. ov = Some (i, j) \<Longrightarrow> (\<forall>w\<in>set xd. i < length w) \<and> (\<forall>u\<in>set yd. j < length u)"
  shows "\<exists>r cr'. revise cr x y = Inr (r, cr')"
proof (cases ov)
  case None
  with assms(2,4) have "revise cr x y = Inr (False, cr)" by (simp add: revise_def)
  then show ?thesis by blast
next
  case (Some ij)
  obtain i j where ij: "ij = (i, j)" by (cases ij)
  from assms(5) [of i j] Some ij
  have "\<forall>w\<in>set xd. valid_against i j w yd = Inr (\<exists>u\<in>set yd. w ! i = u ! j)"
    by (auto intro: valid_against_in_range)
  then have "\<forall>w\<in>set xd. valid_against i j w yd \<noteq> Inl IndexError" by simp
  with revise_eq [OF assms(1-3), of i j] assms(4) Some ij
  have "revise cr x y =
      Inr (\<exists>w\<in>set xd. valid_against i j w yd = Inr False,
           cr\<lparr>domains := AList.map_entry x
                 (filter (\<lambda>w. valid_against i j w yd = Inr True)) (domains cr)\<rparr>)"
    by simp
  then show ?thesis by blast
qed

lemma arc_ok_null:
  "map_of (domains cr) x = Some xd \<Longrightarrow> overlaps (crossword cr) (x, y) = Some None \<Longrightarrow>
   arc_ok cr x y"
  by (simp add: arc_ok_def revise_def)

lemma arc_ok_iff:
  assumes "x \<noteq> y" and "map_of (domains cr) x = Some xd" and "map_of (domains cr) y = Some yd"
    and "overlaps (crossword cr) (x, y) = Some (Some (i, j))"
  shows "arc_ok cr x y \<longleftrightarrow> (\<forall>w\<in>set xd. valid_against i j w yd = Inr True)"
proof
  assume "arc_ok cr x y"
  then have r: "revise cr x y = Inr (False, cr)" by (simp add: arc_ok_def)
  note eq = revise_eq [OF assms]
  from r have all: "\<forall>w\<in>set xd. valid_against i j w yd \<noteq> Inl IndexError"
    and no: "\<not> (\<exists>w\<in>set xd. valid_against i j w yd = Inr False)"
    unfolding eq by (auto split: if_splits)
  show "\<forall>w\<in>set xd. valid_against i j w yd = Inr True"
  proof
    fix w assume w: "w \<in> set xd"
    with all obtain b where "valid_against i j w yd = Inr b"
      using valid_against_error by (cases "valid_against i j w yd") auto
    with no w show "valid_against i j w yd = Inr True" by (cases b) auto
  qed
next
  assume all: "\<forall>w\<in>set xd. valid_against i j w yd = Inr True"
  have "AList.map_entry x (filter (\<lambda>w. valid_against i j w yd = Inr True)) (domains cr)
      = domains cr"
  proof (rule map_entry_same)
    fix d assume "map_of (domains cr) x = Some d"
    with assms(2) have "d = xd" by simp
    with all show "filter (\<lambda>w. valid_against i j w yd = Inr True) d = d" by simp
  qed
  with all show "arc_ok cr x y"
    unfolding arc_ok_def revise_eq [OF assms] by simp
qed

lemma node_consistent_iff:
  "node_consistent cr \<longleftrightarrow>
     (\<forall>v d. map_of (domains cr) v = Some d \<longrightarrow> (\<forall>w\<in>set d. length w = var_length v))"
proof
  assume nc: "node_consistent cr"
  show "\<forall>v d. map_of (domains cr) v = Some d \<longrightarrow> (\<forall>w\<in>set d. length w = var_length v)"
  proof (intro allI impI)
    fix v d assume d: "map_of (domains cr) v = Some d"
    then have "v \<in> set (map fst (domains cr))"
      using lookup_Some_key [OF d] by simp
    with nc d show "\<forall>w\<in>set d. length w = var_length v"
      by (auto simp: node_consistent_def list_all_iff)
  qed
next
  assume "\<forall>v d. map_of (domains cr) v = Some d \<longrightarrow> (\<forall>w\<in>set d. length w = var_length v)"
  then show "node_consistent cr"
    by (auto simp: node_consistent_def list_all_iff split: option.splits)
qed

lemma narrowed_iff:
  "narrowed cr cr' \<longleftrightarrow>
     map fst (domains cr') = map fst (domains cr) \<and>
     (\<forall>v d'. map_of (domains cr') v = Some d' \<longrightarrow>
        (\<exists>d. map_of (domains cr) v = Some d \<and> set d' \<subseteq> set d))"
proof
  assume n: "narrowed cr cr'"
  then have k: "map fst (domains cr') = map fst (domains cr)" by (simp add: narrowed_def)
  have "\<exists>d. map_of (domains cr) v = Some d \<and> set d' \<subseteq> set d"
    if d': "map_of (domains cr') v = Some d'" for v d'
  proof -
    from n have "\<forall>v\<in>set (map fst (domains cr')).
        case map_of (domains cr') v of
          None \<Rightarrow> True
        | Some d' \<Rightarrow>
            (case map_of (domains cr) v of
               None \<Rightarrow> False
             | Some d \<Rightarrow> list_all (\<lambda>w. w \<in> set d) d')"
      unfolding narrowed_def list_all_iff by (rule conjunct2)
    moreover have "v \<in> set (map fst (domains cr'))" using lookup_Some_key [OF d'] by simp
    ultimately have "case map_of (domains cr') v of
          None \<Rightarrow> True
        | Some d' \<Rightarrow>
            (case map_of (domains cr) v of
               None \<Rightarrow> False
             | Some d \<Rightarrow> list_all (\<lambda>w. w \<in> set d) d')"
      by (rule bspec)
    with d' show ?thesis
      by (auto simp: list_all_iff split: option.splits)
  qed
  with k show "map fst (domains cr') = map fst (domains cr) \<and>
     (\<forall>v d'. map_of (domains cr') v = Some d' \<longrightarrow>
        (\<exists>d. map_of (domains cr) v = Some d \<and> set d' \<subseteq> set d))" by blast
next
  assume "map fst (domains cr') = map fst (domains cr) \<and>
     (\<forall>v d'. map_of (domains cr') v = Some d' \<longrightarrow>
        (\<exists>d. map_of (domains cr) v = Some d \<and> set d' \<subseteq> set d))"
  then show "narrowed cr cr'"
    by (fastforce simp: narrowed_def list_all_iff split: option.splits)
qed

lemma narrowed_refl: "narrowed cr cr"
  by (simp add: narrowed_iff)

lemma narrowed_trans:
  assumes "narrowed a b" and "narrowed b c"
  shows "narrowed a c"
  unfolding narrowed_iff
proof (intro conjI allI impI)
  from assms show "map fst (domains c) = map fst (domains a)"
    by (simp add: narrowed_iff)
next
  fix v d'' assume "map_of (domains c) v = Some d''"
  with assms(2) obtain d' where d': "map_of (domains b) v = Some d'" "set d'' \<subseteq> set d'"
    unfolding narrowed_iff by blast
  with assms(1) obtain d where "map_of (domains a) v = Some d" "set d' \<subseteq> set d"
    unfolding narrowed_iff by blast
  with d'(2) show "\<exists>d. map_of (domains a) v = Some d \<and> set d'' \<subseteq> set d" by blast
qed

lemma narrowed_node_consistent:
  assumes "node_consistent cr" and "narrowed cr cr'"
  shows "node_consistent cr'"
  unfolding node_consistent_iff
proof (intro allI impI ballI)
  fix v d' w assume "map_of (domains cr') v = Some d'" and w: "w \<in> set d'"
  with assms(2) obtain d where d: "map_of (domains cr) v = Some d" "set d' \<subseteq> set d"
    unfolding narrowed_iff by blast
  with w have "w \<in> set d" by blast
  with assms(1) d(1) show "length w = var_length v"
    unfolding node_consistent_iff by blast
qed

lemma revise_narrowed: "revise cr x y = Inr (r, cr') \<Longrightarrow> narrowed cr cr'"
  unfolding narrowed_iff using revise_frame revise_shrinks by blast

lemma ac3_loop_narrowed:
  "ac3_loop cr queue = Inr (r, cr') \<Longrightarrow> crossword cr' = crossword cr \<and> narrowed cr cr'"
proof (induction cr queue rule: ac3_loop.induct)
  case (1 cr)
  then show ?case by (simp add: narrowed_refl)
next
  case (2 cr x y queue)
  from 2(3) obtain revised cr1 where r: "revise cr x y = Inr (revised, cr1)"
    by (auto split: sum.splits)
  note n1 = revise_narrowed [OF r] and f1 = revise_frame [OF r]
  show ?case
  proof (cases revised)
    case False
    with 2(3) r have "ac3_loop cr1 queue = Inr (r, cr')" by simp
    from 2(2) [OF r _ False this] n1 f1 show ?thesis
      by (auto intro: narrowed_trans)
  next
    case True
    with 2(3) r obtain xd where xd: "map_of (domains cr1) x = Some xd"
      by (auto split: option.splits)
    show ?thesis
    proof (cases "xd = []")
      case empty: True
      with 2(3) r True xd have "cr' = cr1" by simp
      with n1 f1 show ?thesis by simp
    next
      case False
      with 2(3) r True xd 2(1) [OF r _ True xd False] n1 f1 show ?thesis
        by (auto intro: narrowed_trans)
    qed
  qed
qed

lemma enforce_node_consistency_node_consistent:
  "node_consistent (enforce_node_consistency cr)"
  unfolding node_consistent_iff
  by (auto simp: enforce_node_consistency_lookup)

subsection \<open>AC-3 reaches arc consistency\<close>

lemma agree_swap: "agree i j w u \<longleftrightarrow> agree j i u w"
  by (auto simp: agree_def)

lemma symmetric_overlapsD:
  assumes "symmetric_overlaps cw" and "x \<in> set (variables cw)" and "y \<in> set (variables cw)"
    and "x \<noteq> y"
  shows "\<exists>ov. overlaps cw (x, y) = Some ov \<and> overlaps cw (y, x) = Some (map_option prod.swap ov)"
proof -
  from assms have "case overlaps cw (x, y) of
      None \<Rightarrow> False
    | Some ov \<Rightarrow> overlaps cw (y, x) = Some (map_option prod.swap ov)"
    unfolding symmetric_overlaps_def list_all_iff by blast
  then show ?thesis by (cases "overlaps cw (x, y)") simp_all
qed

lemma well_formed_overlaps:
  assumes "well_formed cr" and "x \<in> fst ` set (domains cr)" and "y \<in> fst ` set (domains cr)"
    and "x \<noteq> y"
  shows "\<exists>ov. overlaps (crossword cr) (x, y) = Some ov \<and>
              overlaps (crossword cr) (y, x) = Some (map_option prod.swap ov)"
proof -
  from assms(1-3) have "x \<in> set (variables (crossword cr))" "y \<in> set (variables (crossword cr))"
    by (auto simp: well_formed_def)
  with assms(1,4) show ?thesis
    by (intro symmetric_overlapsD) (simp_all add: well_formed_def)
qed

lemma well_formed_frame:
  "well_formed cr \<Longrightarrow> crossword cr' = crossword cr \<Longrightarrow>
   map fst (domains cr') = map fst (domains cr) \<Longrightarrow> well_formed cr'"
  by (simp add: well_formed_def)

lemma keys_frame:
  "map fst (domains cr') = map fst (domains cr) \<Longrightarrow> fst ` set (domains cr') = fst ` set (domains cr)"
  by (metis set_map)

lemma revise_all_Inr:
  assumes "x \<noteq> y" and "map_of (domains cr) x = Some xd" and "map_of (domains cr) y = Some yd"
    and "overlaps (crossword cr) (x, y) = Some (Some (i, j))"
    and "revise cr x y = Inr (r, cr')"
    and "w \<in> set xd"
  shows "valid_against i j w yd = Inr (\<exists>u\<in>set yd. agree i j w u)"
proof -
  from assms(5) have "\<forall>w\<in>set xd. valid_against i j w yd \<noteq> Inl IndexError"
    unfolding revise_eq [OF assms(1-4)] by (auto split: if_splits)
  with assms(6) obtain b where b: "valid_against i j w yd = Inr b"
    using valid_against_error by (cases "valid_against i j w yd") auto
  with valid_against_Inr_iff [OF b] show ?thesis by simp
qed

lemma revise_False_same:
  assumes "x \<noteq> y" and "map_of (domains cr) x = Some xd" and "map_of (domains cr) y = Some yd"
    and "revise cr x y = Inr (False, cr')"
  shows "cr' = cr"
proof (cases "overlaps (crossword cr) (x, y)")
  case None
  with assms(2,4) show ?thesis by (simp add: revise_def)
next
  case (Some ov)
  show ?thesis
  proof (cases ov)
    case None
    with Some assms(2,4) show ?thesis by (simp add: revise_def)
  next
    case inner: (Some ij)
    obtain i j where ij: "ij = (i, j)" by (cases ij)
    from Some inner ij have ov: "overlaps (crossword cr) (x, y) = Some (Some (i, j))" by simp
    note res = revise_result [OF assms(1-3) ov assms(4)]
    from res(2) have all: "\<forall>w\<in>set xd. \<exists>u\<in>set yd. agree i j w u" by simp
    have "AList.map_entry x (filter (\<lambda>w. \<exists>u\<in>set yd. agree i j w u)) (domains cr) = domains cr"
    proof (rule map_entry_same)
      fix d assume "map_of (domains cr) x = Some d"
      with assms(2) have "d = xd" by simp
      with all show "filter (\<lambda>w. \<exists>u\<in>set yd. agree i j w u) d = d" by simp
    qed
    with res(1) show ?thesis by simp
  qed
qed

lemma arc_ok_self_after_revise:
  assumes "x \<noteq> y" and "map_of (domains cr) x = Some xd" and "map_of (domains cr) y = Some yd"
    and "revise cr x y = Inr (r, cr')"
  shows "arc_ok cr' x y"
proof (cases "overlaps (crossword cr) (x, y)")
  case None
  with assms(2,4) show ?thesis by (simp add: revise_def)
next
  case (Some ov)
  show ?thesis
  proof (cases ov)
    case None
    with Some assms(2,4) have "r = False" "cr' = cr" by (simp_all add: revise_def)
    with assms(4) show ?thesis by (simp add: arc_ok_def)
  next
    case inner: (Some ij)
    obtain i j where ij: "ij = (i, j)" by (cases ij)
    from Some inner ij have ov: "overlaps (crossword cr) (x, y) = Some (Some (i, j))" by simp
    note res = revise_result [OF assms(1-3) ov assms(4)]
    let ?K = "\<lambda>w. \<exists>u\<in>set yd. agree i j w u"
    from res(1) assms(1-3) have
      lx: "map_of (domains cr') x = Some (filter ?K xd)" and
      ly: "map_of (domains cr') y = Some yd" and
      ov': "overlaps (crossword cr') (x, y) = Some (Some (i, j))"
      using ov by (simp_all add: map_of_map_entry_eq)
    have "\<forall>w\<in>set (filter ?K xd). valid_against i j w yd = Inr True"
    proof
      fix w assume "w \<in> set (filter ?K xd)"
      then have w: "w \<in> set xd" and k: "?K w" by simp_all
      from revise_all_Inr [OF assms(1-3) ov assms(4) w] k
      show "valid_against i j w yd = Inr True" by simp
    qed
    then show ?thesis
      unfolding arc_ok_iff [OF assms(1) lx ly ov'] .
  qed
qed

lemma arc_ok_after_revise:
  assumes wf: "well_formed cr"
    and xy: "x \<noteq> y" "map_of (domains cr) x = Some xd" "map_of (domains cr) y = Some yd"
    and rev: "revise cr x y = Inr (r, cr')"
    and ab: "a \<noteq> b" "map_of (domains cr) a = Some ad" "map_of (domains cr) b = Some bd"
    and ok: "arc_ok cr a b"
    and nq: "b = x \<Longrightarrow> a = y \<or> a \<notin> set (neighbors (crossword cr) x)"
  shows "arc_ok cr' a b"
proof -
  note keys = lookup_Some_key [OF xy(2)] lookup_Some_key [OF xy(3)]
    lookup_Some_key [OF ab(2)] lookup_Some_key [OF ab(3)]
  from well_formed_overlaps [OF wf keys(1,2) xy(1)] obtain ov where
    ov: "overlaps (crossword cr) (x, y) = Some ov"
      "overlaps (crossword cr) (y, x) = Some (map_option prod.swap ov)"
    by blast
  from well_formed_overlaps [OF wf keys(3,4) ab(1)] obtain ov2 where
    ov2: "overlaps (crossword cr) (a, b) = Some ov2"
    by blast
  show ?thesis
  proof (cases ov)
    case None
    with ov(1) xy(2) rev have "cr' = cr" by (simp add: revise_def)
    with ok show ?thesis by simp
  next
    case (Some ij)
    obtain i j where ij: "ij = (i, j)" by (cases ij)
    from ov Some ij have
      ovxy: "overlaps (crossword cr) (x, y) = Some (Some (i, j))" and
      ovyx: "overlaps (crossword cr) (y, x) = Some (Some (j, i))"
      by simp_all
    note res = revise_result [OF xy ovxy rev]
    let ?K = "\<lambda>w. \<exists>u\<in>set yd. agree i j w u"
    from res(1) have
      look: "\<And>v. map_of (domains cr') v
          = (if v = x then map_option (filter ?K) (map_of (domains cr) x)
             else map_of (domains cr) v)" and
      cw: "crossword cr' = crossword cr"
      by (simp_all add: map_of_map_entry_eq)
    show ?thesis
    proof (cases ov2)
      case None
      from look [of a] ab(2) obtain ad' where "map_of (domains cr') a = Some ad'"
        by (cases "a = x") simp_all
      moreover from ov2 None cw have "overlaps (crossword cr') (a, b) = Some None" by simp
      ultimately show ?thesis by (rule arc_ok_null)
    next
      case inner: (Some ij2)
      obtain i2 j2 where ij2: "ij2 = (i2, j2)" by (cases ij2)
      from ov2 inner ij2 have
        ovab: "overlaps (crossword cr) (a, b) = Some (Some (i2, j2))" by simp
      with cw have ovab': "overlaps (crossword cr') (a, b) = Some (Some (i2, j2))" by simp
      from ok have all: "\<forall>w\<in>set ad. valid_against i2 j2 w bd = Inr True"
        unfolding arc_ok_iff [OF ab ovab] .
      show ?thesis
      proof (cases "b = x")
        case False
        then have lb: "map_of (domains cr') b = Some bd" using look [of b] ab(3) by simp
        obtain ad' where la: "map_of (domains cr') a = Some ad'" and sub: "set ad' \<subseteq> set ad"
          using look [of a] ab(2) xy(2) by (cases "a = x") auto
        from all sub have "\<forall>w\<in>set ad'. valid_against i2 j2 w bd = Inr True" by blast
        then show ?thesis
          unfolding arc_ok_iff [OF ab(1) la lb ovab'] .
      next
        case True
        with ab(1) have ax: "a \<noteq> x" by simp
        from True ab(3) xy(2) have bd: "bd = xd" by simp
        have la: "map_of (domains cr') a = Some ad" using look [of a] ax ab(2) by simp
        have lb: "map_of (domains cr') b = Some (filter ?K xd)"
          using look [of b] True xy(2) by simp
        have ay: "a = y"
        proof (rule ccontr)
          assume "a \<noteq> y"
          with nq [OF True] have "a \<notin> set (neighbors (crossword cr) x)" by simp
          moreover from wf keys(3) have "a \<in> set (variables (crossword cr))"
            by (auto simp: well_formed_def)
          ultimately show False
            using ax ovab True by (simp add: neighbors_def)
        qed
        with ab(2) xy(3) have ad: "ad = yd" by simp
        from ay True ovab ovyx have ij2': "i2 = j" "j2 = i" by simp_all
        have "\<forall>w\<in>set ad. valid_against i2 j2 w (filter ?K xd) = Inr True"
        proof
          fix w assume w: "w \<in> set ad"
          with all bd ij2' have v: "valid_against j i w xd = Inr True" by simp
          from valid_against_first [OF v] obtain u0 where
            f: "find (agree j i w) xd = Some u0" by blast
          then have "agree j i w u0" by (auto simp: find_Some_iff)
          then have "agree i j u0 w" by (simp add: agree_swap [of i j u0 w])
          with w ad have "?K u0" by blast
          with valid_against_filter [OF v f, of ?K] ij2'
          show "valid_against i2 j2 w (filter ?K xd) = Inr True" by simp
        qed
        then show ?thesis
          unfolding arc_ok_iff [OF ab(1) la lb ovab'] .
      qed
    qed
  qed
qed

lemma all_arcs_set:
  "set (all_arcs cr) = {(x, y). x \<in> fst ` set (domains cr) \<and> y \<in> fst ` set (domains cr) \<and> x \<noteq> y}"
  by (auto simp: all_arcs_def)

lemma neighbors_mem:
  "z \<in> set (neighbors cw x) \<longleftrightarrow>
     z \<in> set (variables cw) \<and> z \<noteq> x \<and> (\<exists>ij. overlaps cw (z, x) = Some (Some ij))"
proof (cases "overlaps cw (z, x)")
  case None
  then show ?thesis by (simp add: neighbors_def)
next
  case (Some ov)
  then show ?thesis by (cases ov) (simp_all add: neighbors_def)
qed

definition keys :: "CrosswordCreator \<Rightarrow> Variable set" where
  "keys cr = fst ` set (domains cr)"

text \<open>Every arc of the worklist joins two distinct variables of the domain map.\<close>

definition proper_arcs :: "CrosswordCreator \<Rightarrow> (Variable \<times> Variable) list \<Rightarrow> bool" where
  "proper_arcs cr queue \<longleftrightarrow>
     (\<forall>p\<in>set queue. fst p \<in> keys cr \<and> snd p \<in> keys cr \<and> fst p \<noteq> snd p)"

text \<open>Every arc outside the set \<open>Q\<close> is settled.\<close>

definition settled :: "CrosswordCreator \<Rightarrow> (Variable \<times> Variable) set \<Rightarrow> bool" where
  "settled cr Q \<longleftrightarrow> (\<forall>x\<in>keys cr. \<forall>y\<in>keys cr. x \<noteq> y \<longrightarrow> (x, y) \<in> Q \<or> arc_ok cr x y)"

lemma keys_lookup: "x \<in> keys cr \<Longrightarrow> \<exists>d. map_of (domains cr) x = Some d"
  unfolding keys_def by (rule key_lookup_Some)

lemma lookup_keys: "map_of (domains cr) x = Some d \<Longrightarrow> x \<in> keys cr"
  unfolding keys_def by (rule lookup_Some_key)

lemma keys_eq: "map fst (domains cr') = map fst (domains cr) \<Longrightarrow> keys cr' = keys cr"
  unfolding keys_def by (rule keys_frame)

lemma well_formed_keys: "well_formed cr \<Longrightarrow> set (variables (crossword cr)) = keys cr"
  by (simp add: well_formed_def keys_def)

lemma all_arcs_proper: "proper_arcs cr (all_arcs cr)"
  by (auto simp: proper_arcs_def keys_def all_arcs_def)

lemma all_arcs_settled: "settled cr (set (all_arcs cr))"
  unfolding settled_def
proof (intro ballI impI)
  fix x y assume "x \<in> keys cr" "y \<in> keys cr" "x \<noteq> y"
  then have "(x, y) \<in> set (all_arcs cr)"
    by (auto simp: keys_def all_arcs_def)
  then show "(x, y) \<in> set (all_arcs cr) \<or> arc_ok cr x y" ..
qed

lemma ac3_loop_settles:
  assumes "well_formed cr" and "proper_arcs cr queue" and "settled cr (set queue)"
    and "ac3_loop cr queue = Inr (True, cr')"
  shows "settled cr' {}"
  using assms
proof (induction cr queue rule: ac3_loop.induct)
  case (1 cr)
  then show ?case by simp
next
  case (2 cr x y queue)
  note wf = "2.prems"(1) and arcs = "2.prems"(2) and inv = "2.prems"(3) and run = "2.prems"(4)
  from arcs have xk: "x \<in> keys cr" and yk: "y \<in> keys cr" and xy: "x \<noteq> y"
    by (simp_all add: proper_arcs_def)
  from arcs have arcsq: "proper_arcs cr queue"
    by (simp add: proper_arcs_def)
  from keys_lookup [OF xk] obtain xd where xd: "map_of (domains cr) x = Some xd" by blast
  from keys_lookup [OF yk] obtain yd where yd: "map_of (domains cr) y = Some yd" by blast
  from run obtain revised cr1 where r: "revise cr x y = Inr (revised, cr1)"
    by (auto split: sum.splits)
  note fr = revise_frame [OF r]
  have keys1: "keys cr1 = keys cr" using fr [THEN conjunct2] by (rule keys_eq)
  have cw1: "crossword cr1 = crossword cr" using fr by (rule conjunct1)
  have wf1: "well_formed cr1"
    using wf fr [THEN conjunct1] fr [THEN conjunct2] by (rule well_formed_frame)
  note self = arc_ok_self_after_revise [OF xy xd yd r]
  show ?case
  proof (cases revised)
    case False
    with r have same: "cr1 = cr" using revise_False_same [OF xy xd yd] by simp
    from run r False have run1: "ac3_loop cr1 queue = Inr (True, cr')" by simp
    from arcsq same have arcs1: "proper_arcs cr1 queue" by simp
    have inv1: "settled cr1 (set queue)"
      unfolding settled_def
    proof (intro ballI impI)
      fix a b assume a: "a \<in> keys cr1" and b: "b \<in> keys cr1" and ab: "a \<noteq> b"
      from inv a b ab same have "(a, b) \<in> set ((x, y) # queue) \<or> arc_ok cr a b"
        unfolding settled_def by blast
      then consider "(a, b) = (x, y)" | "(a, b) \<in> set queue" | "arc_ok cr a b" by auto
      then show "(a, b) \<in> set queue \<or> arc_ok cr1 a b"
      proof cases
        case 1
        with self show ?thesis by simp
      next
        case 2
        then show ?thesis ..
      next
        case 3
        with same show ?thesis by simp
      qed
    qed
    from "2.IH"(2) [OF r _ False wf1 arcs1 inv1 run1] show ?thesis by simp
  next
    case True
    with run r obtain xd1 where xd1: "map_of (domains cr1) x = Some xd1"
      by (auto split: option.splits)
    with run r True have ne: "xd1 \<noteq> []" by (auto split: if_splits)
    let ?new = "map (\<lambda>z. (z, x)) (filter (\<lambda>z. z \<noteq> y) (neighbors (crossword cr1) x))"
    from run r True xd1 ne have run1: "ac3_loop cr1 (queue @ ?new) = Inr (True, cr')" by simp
    note vars = well_formed_keys [OF wf]
    have new_mem: "(a, b) \<in> set ?new \<longleftrightarrow>
        b = x \<and> a \<noteq> y \<and> a \<in> set (neighbors (crossword cr) x)" for a b
      unfolding cw1 by auto
    have arcs1: "proper_arcs cr1 (queue @ ?new)"
      unfolding proper_arcs_def
    proof
      fix p assume "p \<in> set (queue @ ?new)"
      then consider "p \<in> set queue" | "p \<in> set ?new" by auto
      then show "fst p \<in> keys cr1 \<and> snd p \<in> keys cr1 \<and> fst p \<noteq> snd p"
      proof cases
        case 1
        with arcsq keys1 show ?thesis by (simp add: proper_arcs_def)
      next
        case 2
        then have "(fst p, snd p) \<in> set ?new" by simp
        then have "snd p = x" and "fst p \<in> set (neighbors (crossword cr) x)"
          unfolding new_mem by simp_all
        with vars xk keys1 show ?thesis by (simp add: neighbors_mem)
      qed
    qed
    have inv1: "settled cr1 (set (queue @ ?new))"
      unfolding settled_def
    proof (intro ballI impI)
      fix a b assume a1: "a \<in> keys cr1" and b1: "b \<in> keys cr1" and ab: "a \<noteq> b"
      from a1 b1 keys1 have a: "a \<in> keys cr" and b: "b \<in> keys cr" by simp_all
      from keys_lookup [OF a] obtain ad where ad: "map_of (domains cr) a = Some ad" by blast
      from keys_lookup [OF b] obtain bd where bd: "map_of (domains cr) b = Some bd" by blast
      from inv a b ab have "(a, b) \<in> set ((x, y) # queue) \<or> arc_ok cr a b"
        unfolding settled_def by blast
      then consider "(a, b) = (x, y)" | "(a, b) \<in> set queue"
        | "(a, b) \<in> set ?new" | "arc_ok cr a b" "(a, b) \<notin> set ?new"
        by auto
      then show "(a, b) \<in> set (queue @ ?new) \<or> arc_ok cr1 a b"
      proof cases
        case 1
        with self show ?thesis by simp
      next
        case 2
        then show ?thesis by simp
      next
        case 3
        then show ?thesis by simp
      next
        case 4
        from 4(2) have "b = x \<Longrightarrow> a = y \<or> a \<notin> set (neighbors (crossword cr) x)"
          unfolding new_mem by blast
        from arc_ok_after_revise [OF wf xy xd yd r ab ad bd 4(1) this]
        show ?thesis ..
      qed
    qed
    from "2.IH"(1) [OF r _ True xd1 ne wf1 arcs1 inv1 run1] show ?thesis by simp
  qed
qed

lemma ac3_loop_fixpoint:
  assumes "settled cr {}" and "proper_arcs cr queue"
  shows "ac3_loop cr queue = Inr (True, cr)"
  using assms(2)
proof (induction queue)
  case Nil
  show ?case by simp
next
  case (Cons p queue)
  obtain x y where p: "p = (x, y)" by (cases p)
  from Cons.prems p have "x \<in> keys cr" "y \<in> keys cr" "x \<noteq> y" and q: "proper_arcs cr queue"
    by (simp_all add: proper_arcs_def)
  with assms(1) have "arc_ok cr x y" by (simp add: settled_def)
  then have "revise cr x y = Inr (False, cr)" by (simp add: arc_ok_def)
  moreover from Cons.IH [OF q] have "ac3_loop cr queue = Inr (True, cr)" .
  ultimately show ?case unfolding p by simp
qed

lemma ac3_settles:
  assumes "well_formed cr" and "ac3 cr None = Inr (True, cr')"
  shows "settled cr' {}"
proof (rule ac3_loop_settles [OF assms(1)])
  show "ac3_loop cr (all_arcs cr) = Inr (True, cr')"
    using assms(2) by (simp add: ac3_def)
  show "proper_arcs cr (all_arcs cr)" by (rule all_arcs_proper)
  show "settled cr (set (all_arcs cr))" by (rule all_arcs_settled)
qed

subsection \<open>What the search returns\<close>

lemma pop_eq: "pop var a = Inr a' \<Longrightarrow> a' = AList.delete var a"
  by (auto simp: pop_def split: option.splits)

lemma pop_update: "pop var (AList.update var val a) = Inr (AList.delete var a)"
  by (simp add: pop_def update_conv' delete_update_same)

lemma truthy_Some: "truthy res \<Longrightarrow> \<exists>r. res = Some r \<and> r \<noteq> []"
  by (cases res) auto

lemma consistent_Nil: "consistent cr [] = Inr True"
  by (simp add: consistent_def)

text \<open>
  The outcome of a returning call: the creator is unchanged; on failure the assignment
  is what it was at entry; on success the returned dictionary is the assignment itself,
  it is complete, it extends the assignment of the entry, and it is that assignment or
  has passed the consistency check.
\<close>

definition good_outcome :: "CrosswordCreator \<Rightarrow> assignment \<Rightarrow> outcome \<Rightarrow> bool" where
  "good_outcome cr a out \<longleftrightarrow>
     self_after out = cr \<and>
     (case result out of
        None \<Rightarrow> assignment_after out = a
      | Some r \<Rightarrow>
          assignment_after out = r \<and> assignment_complete cr r \<and>
          (r = a \<or> consistent cr r = Inr True) \<and> fst ` set a \<subseteq> fst ` set r)"

definition good_loop_outcome ::
  "CrosswordCreator \<Rightarrow> Variable \<Rightarrow> word list \<Rightarrow> assignment \<Rightarrow> outcome \<Rightarrow> bool" where
  "good_loop_outcome cr var vals a out \<longleftrightarrow>
     self_after out = cr \<and>
     (case result out of
        None \<Rightarrow> assignment_after out = (if vals = [] then a else AList.delete var a)
      | Some r \<Rightarrow>
          assignment_after out = r \<and> assignment_complete cr r \<and>
          consistent cr r = Inr True \<and> r \<noteq> [] \<and> fst ` set a - {var} \<subseteq> fst ` set r)"

lemma good_outcome_falsy:
  assumes "good_outcome cr a out" and "\<not> truthy (result out)" and "a \<noteq> []"
  shows "result out = None" and "assignment_after out = a" and "self_after out = cr"
proof -
  show "result out = None"
  proof (cases "result out")
    case None
    then show ?thesis .
  next
    case (Some r)
    with assms(2) have "r = []" by simp
    moreover from assms(1) Some have "fst ` set a \<subseteq> fst ` set r"
      by (simp add: good_outcome_def)
    ultimately show ?thesis using assms(3) by (cases a) auto
  qed
  with assms(1) show "assignment_after out = a" and "self_after out = cr"
    by (simp_all add: good_outcome_def)
qed

lemma backtrack_outcome:
  "backtrack cr a = Inr out \<Longrightarrow> good_outcome cr a out"
  "backtrack_values cr var vals a n = Inr out \<Longrightarrow> good_loop_outcome cr var vals a out"
proof (induction cr a and cr var vals a n arbitrary: out and out
    rule: backtrack_backtrack_values.induct)
  case (1 cr a)
  show ?case
  proof (cases "assignment_complete cr a")
    case True
    with 1(2) show ?thesis by (auto simp: good_outcome_def)
  next
    case False
    with 1(2) obtain var vals where
      sel: "select_unassigned_variable cr a = Inr var" and
      ord: "order_domain_values cr var a = Inr vals" and
      run: "backtrack_values cr var vals a 1 = Inr out"
      by (auto split: sum.splits)
    from 1(1) [OF False sel ord run] have g: "good_loop_outcome cr var vals a out" .
    from select_unassigned_variable_unassigned [OF sel]
    have nv: "var \<notin> fst ` set a" by (simp add: unassigned_def)
    then have del: "AList.delete var a = a" by simp
    from nv have "fst ` set a - {var} = fst ` set a" by blast
    with g del show ?thesis
      by (auto simp: good_outcome_def good_loop_outcome_def split: option.splits)
  qed
next
  case (2 cr var a n)
  then show ?case by (auto simp: good_loop_outcome_def)
next
  case (3 cr var val vals a n)
  let ?a1 = "AList.update var val a"
  note run = 3(4)
  from run obtain ok where ok: "consistent cr ?a1 = Inr ok"
    by (auto split: sum.splits)
  have keys1: "fst ` set ?a1 = {var} \<union> fst ` set a" by (rule dom_update)
  have ne1: "?a1 \<noteq> []" by simp
  show ?case
  proof (cases ok)
    case True
    with run ok obtain out1 where o1: "backtrack cr ?a1 = Inr out1"
      by (auto split: sum.splits)
    from 3(1) [OF ok True o1] have g1: "good_outcome cr ?a1 out1" .
    show ?thesis
    proof (cases "truthy (result out1)")
      case yes: True
      with run ok True o1 have out: "out = out1\<lparr>calls := n + calls out1\<rparr>" by simp
      from truthy_Some [OF yes] obtain r where r: "result out1 = Some r" "r \<noteq> []" by blast
      from g1 r have "assignment_after out1 = r" "assignment_complete cr r"
        "r = ?a1 \<or> consistent cr r = Inr True" "fst ` set ?a1 \<subseteq> fst ` set r"
        "self_after out1 = cr"
        by (simp_all add: good_outcome_def)
      moreover from this(3) ok True have "consistent cr r = Inr True" by auto
      moreover from \<open>fst ` set ?a1 \<subseteq> fst ` set r\<close> keys1
      have "fst ` set a - {var} \<subseteq> fst ` set r" by blast
      ultimately show ?thesis
        unfolding out using r by (simp add: good_loop_outcome_def)
    next
      case no: False
      note f = good_outcome_falsy [OF g1 no ne1]
      from f(2) have p: "pop var (assignment_after out1) = Inr (AList.delete var a)"
        by (simp add: pop_update)
      with run ok True o1 no f(3)
      have rest: "backtrack_values cr var vals (AList.delete var a) (n + calls out1) = Inr out"
        by simp
      from 3(2) [OF ok True o1 no p] rest f(3)
      have g: "good_loop_outcome cr var vals (AList.delete var a) out" by simp
      have "fst ` set (AList.delete var a) - {var} = fst ` set a - {var}"
        by (auto simp: AList.delete_eq)
      with g show ?thesis
        by (auto simp: good_loop_outcome_def delete_idem split: option.splits)
    qed
  next
    case False
    have p: "pop var ?a1 = Inr (AList.delete var a)" by (rule pop_update)
    with run ok False
    have rest: "backtrack_values cr var vals (AList.delete var a) n = Inr out"
      by simp
    from 3(3) [OF ok False p rest]
    have g: "good_loop_outcome cr var vals (AList.delete var a) out" .
    have "fst ` set (AList.delete var a) - {var} = fst ` set a - {var}"
      by (auto simp: AList.delete_eq)
    with g show ?thesis
      by (auto simp: good_loop_outcome_def delete_idem split: option.splits)
  qed
qed

subsection \<open>The consistency check is sound\<close>

lemma check_neighbors_True:
  "check_neighbors cr a var val ys = Inr True \<Longrightarrow>
   list_all (\<lambda>y. case map_of a y of
                    None \<Rightarrow> True
                  | Some wy \<Rightarrow>
                      (case overlaps (crossword cr) (var, y) of
                         Some (Some (i, j)) \<Rightarrow> agree i j val wy
                       | _ \<Rightarrow> True)) ys"
proof (induction ys)
  case Nil
  show ?case by simp
next
  case (Cons y ys)
  show ?case
  proof (cases "map_of a y")
    case None
    with Cons show ?thesis by simp
  next
    case (Some wy)
    show ?thesis
    proof (cases "overlaps (crossword cr) (var, y)")
      case None
      with Some Cons.prems show ?thesis by simp
    next
      case ov: (Some ov)
      show ?thesis
      proof (cases ov)
        case None
        with Some ov Cons show ?thesis by simp
      next
        case inner: (Some ij)
        obtain i j where ij: "ij = (i, j)" by (cases ij)
        from Cons.prems Some ov inner ij
        have "i < length val" "j < length wy" "val ! i = wy ! j"
          and "check_neighbors cr a var val ys = Inr True"
          by (auto split: if_splits)
        with Cons.IH Some ov inner ij show ?thesis by (simp add: agree_def)
      qed
    qed
  qed
qed

lemma consistent_loop_True:
  "consistent_loop cr a rest dv = Inr True \<Longrightarrow>
   list_all (\<lambda>(v, w). length w = var_length v) rest \<and>
   list_all (\<lambda>(x, wx).
       list_all (\<lambda>y. case map_of a y of
                        None \<Rightarrow> True
                      | Some wy \<Rightarrow>
                          (case overlaps (crossword cr) (x, y) of
                             Some (Some (i, j)) \<Rightarrow> agree i j wx wy
                           | _ \<Rightarrow> True))
         (neighbors (crossword cr) x)) rest \<and>
   distinct (map snd rest) \<and> set (map snd rest) \<inter> set dv = {}"
proof (induction rest arbitrary: dv)
  case Nil
  show ?case by simp
next
  case (Cons p rest)
  obtain var val where p: "p = (var, val)" by (cases p)
  from Cons.prems p have len: "length val = var_length var"
    by (auto split: if_splits)
  with Cons.prems p obtain ok where
    ok: "check_neighbors cr a var val (neighbors (crossword cr) var) = Inr ok"
    by (auto split: sum.splits)
  with Cons.prems p len have okT: "ok" and nd: "val \<notin> set dv"
    and rest: "consistent_loop cr a rest (dv @ [val]) = Inr True"
    by (auto split: if_splits)
  from Cons.IH [OF rest] check_neighbors_True [of cr a var val "neighbors (crossword cr) var"]
    ok okT len nd
  show ?case unfolding p by auto
qed

lemma consistent_sound:
  "consistent cr a = Inr True \<Longrightarrow> consistent_assignment (crossword cr) a"
  unfolding consistent_def consistent_assignment_def
  using consistent_loop_True [of cr a a "[]"] by simp

subsection \<open>Propagation keeps every solution\<close>

text \<open>
  A solution of the puzzle, as a function on its variables: words of the right lengths
  that agree on every overlap and are pairwise distinct.
\<close>

definition solution :: "Crossword \<Rightarrow> (Variable \<Rightarrow> word) \<Rightarrow> bool" where
  "solution cw sol \<longleftrightarrow>
     (\<forall>v\<in>set (variables cw). length (sol v) = var_length v) \<and>
     (\<forall>x\<in>set (variables cw). \<forall>y\<in>set (variables cw). \<forall>i j.
        x \<noteq> y \<longrightarrow> overlaps cw (x, y) = Some (Some (i, j)) \<longrightarrow> agree i j (sol x) (sol y)) \<and>
     inj_on sol (set (variables cw))"

text \<open>Every domain still holds the word the solution gives to its variable.\<close>

definition supports :: "CrosswordCreator \<Rightarrow> (Variable \<Rightarrow> word) \<Rightarrow> bool" where
  "supports cr sol \<longleftrightarrow> (\<forall>v d. map_of (domains cr) v = Some d \<longrightarrow> sol v \<in> set d)"

text \<open>The state the search starts from: well formed, node consistent, overlaps in range.\<close>

definition ready :: "CrosswordCreator \<Rightarrow> bool" where
  "ready cr \<longleftrightarrow> well_formed cr \<and> bounded_overlaps (crossword cr) \<and> node_consistent cr"

lemma bounded_overlapsD:
  assumes "bounded_overlaps cw" and "x \<in> set (variables cw)" and "y \<in> set (variables cw)"
    and "overlaps cw (x, y) = Some (Some (i, j))"
  shows "i < var_length x \<and> j < var_length y"
proof -
  from assms(1-3) have "case overlaps cw (x, y) of
      Some (Some (i, j)) \<Rightarrow> i < var_length x \<and> j < var_length y
    | _ \<Rightarrow> True"
    unfolding bounded_overlaps_def list_all_iff by blast
  with assms(4) show ?thesis by simp
qed

lemma ready_in_range:
  assumes "ready cr" and "x \<noteq> y"
    and "map_of (domains cr) x = Some xd" and "map_of (domains cr) y = Some yd"
    and "overlaps (crossword cr) (x, y) = Some (Some (i, j))"
  shows "(\<forall>w\<in>set xd. i < length w) \<and> (\<forall>u\<in>set yd. j < length u)"
proof -
  from assms(1) have wf: "well_formed cr" and bo: "bounded_overlaps (crossword cr)"
    and nc: "node_consistent cr"
    by (simp_all add: ready_def)
  from lookup_keys [OF assms(3)] lookup_keys [OF assms(4)] well_formed_keys [OF wf]
  have "x \<in> set (variables (crossword cr))" "y \<in> set (variables (crossword cr))"
    by simp_all
  from bounded_overlapsD [OF bo this assms(5)]
  have "i < var_length x" "j < var_length y" by simp_all
  moreover from nc assms(3,4)
  have "\<forall>w\<in>set xd. length w = var_length x" "\<forall>u\<in>set yd. length u = var_length y"
    unfolding node_consistent_iff by blast+
  ultimately show ?thesis by simp
qed

lemma ready_revise_total:
  assumes "ready cr" and "x \<noteq> y" and "x \<in> keys cr" and "y \<in> keys cr"
  shows "\<exists>r cr'. revise cr x y = Inr (r, cr')"
proof -
  from keys_lookup [OF assms(3)] obtain xd where xd: "map_of (domains cr) x = Some xd" by blast
  from keys_lookup [OF assms(4)] obtain yd where yd: "map_of (domains cr) y = Some yd" by blast
  from assms(1) have wf: "well_formed cr" by (simp add: ready_def)
  from well_formed_overlaps [OF wf] assms(2-4) obtain ov where
    ov: "overlaps (crossword cr) (x, y) = Some ov"
    unfolding keys_def by blast
  show ?thesis
  proof (rule revise_total [OF assms(2) xd yd ov])
    fix i j assume "ov = Some (i, j)"
    with ov have "overlaps (crossword cr) (x, y) = Some (Some (i, j))" by simp
    from ready_in_range [OF assms(1,2) xd yd this]
    show "(\<forall>w\<in>set xd. i < length w) \<and> (\<forall>u\<in>set yd. j < length u)" .
  qed
qed

lemma ready_revise:
  assumes "ready cr" and "revise cr x y = Inr (r, cr')"
  shows "ready cr'"
proof -
  note fr = revise_frame [OF assms(2)]
  from assms(1) have "well_formed cr" "bounded_overlaps (crossword cr)" "node_consistent cr"
    by (simp_all add: ready_def)
  moreover have "well_formed cr'"
    using \<open>well_formed cr\<close> fr [THEN conjunct1] fr [THEN conjunct2] by (rule well_formed_frame)
  moreover have "node_consistent cr'"
    using \<open>node_consistent cr\<close> revise_narrowed [OF assms(2)] by (rule narrowed_node_consistent)
  ultimately show ?thesis
    unfolding ready_def using fr [THEN conjunct1] by simp
qed

lemma supports_revise:
  assumes wf: "well_formed cr" and sol: "solution (crossword cr) sol" and sup: "supports cr sol"
    and xy: "x \<noteq> y" "x \<in> keys cr" "y \<in> keys cr"
    and rev: "revise cr x y = Inr (r, cr')"
  shows "supports cr' sol"
proof -
  from keys_lookup [OF xy(2)] obtain xd where xd: "map_of (domains cr) x = Some xd" by blast
  from keys_lookup [OF xy(3)] obtain yd where yd: "map_of (domains cr) y = Some yd" by blast
  from xy(2,3) well_formed_keys [OF wf]
  have vars: "x \<in> set (variables (crossword cr))" "y \<in> set (variables (crossword cr))"
    by simp_all
  from well_formed_overlaps [OF wf] xy obtain ov where
    ov: "overlaps (crossword cr) (x, y) = Some ov"
    unfolding keys_def by blast
  show ?thesis
  proof (cases ov)
    case None
    with ov xd rev have "cr' = cr" by (simp add: revise_def)
    with sup show ?thesis by simp
  next
    case (Some ij)
    obtain i j where ij: "ij = (i, j)" by (cases ij)
    from ov Some ij have ovxy: "overlaps (crossword cr) (x, y) = Some (Some (i, j))" by simp
    note res = revise_result [OF xy(1) xd yd ovxy rev]
    from sol vars xy(1) ovxy have "agree i j (sol x) (sol y)"
      unfolding solution_def by blast
    moreover from sup yd have "sol y \<in> set yd" by (simp add: supports_def)
    ultimately have k: "\<exists>u\<in>set yd. agree i j (sol x) u" by blast
    show ?thesis
      unfolding supports_def
    proof (intro allI impI)
      fix v d assume d: "map_of (domains cr') v = Some d"
      show "sol v \<in> set d"
      proof (cases "v = x")
        case True
        with d res(1) xd have "d = filter (\<lambda>w. \<exists>u\<in>set yd. agree i j w u) xd"
          by (simp add: map_of_map_entry_eq)
        moreover from sup xd have "sol x \<in> set xd" by (simp add: supports_def)
        ultimately show ?thesis using k True by simp
      next
        case False
        with d res(1) have "map_of (domains cr) v = Some d"
          by (simp add: map_of_map_entry_eq)
        with sup show ?thesis by (simp add: supports_def)
      qed
    qed
  qed
qed

lemma ac3_loop_total:
  assumes "ready cr" and "proper_arcs cr queue"
    and "solution (crossword cr) sol" and "supports cr sol"
  shows "\<exists>r cr'. ac3_loop cr queue = Inr (r, cr') \<and> ready cr' \<and> supports cr' sol \<and>
           crossword cr' = crossword cr \<and> map fst (domains cr') = map fst (domains cr)"
  using assms
proof (induction cr queue rule: ac3_loop.induct)
  case (1 cr)
  then have "ac3_loop cr [] = Inr (True, cr) \<and> ready cr \<and> supports cr sol \<and>
      crossword cr = crossword cr \<and> map fst (domains cr) = map fst (domains cr)"
    by simp
  then show ?case by blast
next
  case (2 cr x y queue)
  note rd = "2.prems"(1) and arcs = "2.prems"(2) and sol = "2.prems"(3) and sup = "2.prems"(4)
  from rd have wf: "well_formed cr" by (simp add: ready_def)
  from arcs have xk: "x \<in> keys cr" and yk: "y \<in> keys cr" and xy: "x \<noteq> y"
    and arcsq: "proper_arcs cr queue"
    by (simp_all add: proper_arcs_def)
  from ready_revise_total [OF rd xy xk yk] obtain revised cr1 where
    r: "revise cr x y = Inr (revised, cr1)" by blast
  note fr = revise_frame [OF r]
  have keys1: "keys cr1 = keys cr" using fr [THEN conjunct2] by (rule keys_eq)
  have cw1: "crossword cr1 = crossword cr" using fr by (rule conjunct1)
  have k1: "map fst (domains cr1) = map fst (domains cr)" using fr by (rule conjunct2)
  have rd1: "ready cr1" using rd r by (rule ready_revise)
  have sup1: "supports cr1 sol" using wf sol sup xy xk yk r by (rule supports_revise)
  have sol1: "solution (crossword cr1) sol" using sol cw1 by simp
  show ?case
  proof (cases revised)
    case False
    from arcsq keys1 have arcs1: "proper_arcs cr1 queue" by (simp add: proper_arcs_def)
    from "2.IH"(2) [OF r _ False rd1 arcs1 sol1 sup1] obtain r' cr' where
      run: "ac3_loop cr1 queue = Inr (r', cr')" and
      post: "ready cr'" "supports cr' sol" and
      eq: "crossword cr' = crossword cr1" "map fst (domains cr') = map fst (domains cr1)"
      by auto
    from run r False have "ac3_loop cr ((x, y) # queue) = Inr (r', cr')" by simp
    moreover from eq(1) cw1 have "crossword cr' = crossword cr" by (rule trans)
    moreover from eq(2) k1 have "map fst (domains cr') = map fst (domains cr)" by (rule trans)
    ultimately show ?thesis using post by blast
  next
    case True
    from xk keys1 have "x \<in> keys cr1" by simp
    from keys_lookup [OF this] obtain xd1 where xd1: "map_of (domains cr1) x = Some xd1" by blast
    show ?thesis
    proof (cases "xd1 = []")
      case empty: True
      with r True xd1 have "ac3_loop cr ((x, y) # queue) = Inr (False, cr1)" by simp
      with rd1 sup1 cw1 k1 show ?thesis by blast
    next
      case False
      let ?new = "map (\<lambda>z. (z, x)) (filter (\<lambda>z. z \<noteq> y) (neighbors (crossword cr1) x))"
      note vars = well_formed_keys [OF wf]
      have arcs1: "proper_arcs cr1 (queue @ ?new)"
        unfolding proper_arcs_def
      proof
        fix p assume "p \<in> set (queue @ ?new)"
        then consider "p \<in> set queue" | "p \<in> set ?new" by auto
        then show "fst p \<in> keys cr1 \<and> snd p \<in> keys cr1 \<and> fst p \<noteq> snd p"
        proof cases
          case 1
          with arcsq keys1 show ?thesis by (simp add: proper_arcs_def)
        next
          case 2
          then have "snd p = x" and "fst p \<in> set (neighbors (crossword cr) x)"
            unfolding cw1 by auto
          with vars xk keys1 show ?thesis by (simp add: neighbors_mem)
        qed
      qed
      from "2.IH"(1) [OF r _ True xd1 False rd1 arcs1 sol1 sup1] obtain r' cr' where
        run: "ac3_loop cr1 (queue @ ?new) = Inr (r', cr')" and
        post: "ready cr'" "supports cr' sol" and
        eq: "crossword cr' = crossword cr1" "map fst (domains cr') = map fst (domains cr1)"
        by auto
      from run r True xd1 False have "ac3_loop cr ((x, y) # queue) = Inr (r', cr')" by simp
      moreover from eq(1) cw1 have "crossword cr' = crossword cr" by (rule trans)
      moreover from eq(2) k1 have "map fst (domains cr') = map fst (domains cr)" by (rule trans)
      ultimately show ?thesis using post by blast
    qed
  qed
qed

subsection \<open>The search raises no error\<close>

text \<open>Every assigned word is a word of the domain of its variable.\<close>

definition within :: "CrosswordCreator \<Rightarrow> assignment \<Rightarrow> bool" where
  "within cr a \<longleftrightarrow> (\<forall>p\<in>set a. \<exists>d. map_of (domains cr) (fst p) = Some d \<and> snd p \<in> set d)"

lemma set_update_cases: "p \<in> set (AList.update k v al) \<Longrightarrow> p = (k, v) \<or> p \<in> set al"
  by (induction al) (auto split: if_splits)

lemma set_delete_subset: "set (AList.delete k al) \<subseteq> set al"
  by (auto simp: AList.delete_eq)

lemma within_Nil: "within cr []"
  by (simp add: within_def)

lemma within_update:
  assumes "within cr a" and "map_of (domains cr) var = Some d" and "val \<in> set d"
  shows "within cr (AList.update var val a)"
  unfolding within_def
proof
  fix p assume "p \<in> set (AList.update var val a)"
  from set_update_cases [OF this]
  show "\<exists>d. map_of (domains cr) (fst p) = Some d \<and> snd p \<in> set d"
  proof
    assume p: "p = (var, val)"
    from assms(2,3) have "map_of (domains cr) var = Some d \<and> val \<in> set d" ..
    then show ?thesis unfolding p fst_conv snd_conv ..
  next
    assume "p \<in> set a"
    with assms(1) show ?thesis unfolding within_def ..
  qed
qed

lemma within_delete: "within cr a \<Longrightarrow> within cr (AList.delete var a)"
  unfolding within_def using set_delete_subset [of var a] by (meson subsetD)

lemma within_length:
  assumes "ready cr" and "within cr a" and "map_of a y = Some yval"
  shows "length yval = var_length y"
proof -
  from assms(3) have "(y, yval) \<in> set a" by (rule map_of_SomeD)
  with assms(2) obtain d where "map_of (domains cr) y = Some d" "yval \<in> set d"
    unfolding within_def by force
  moreover from assms(1) have "node_consistent cr" by (simp add: ready_def)
  ultimately show ?thesis unfolding node_consistent_iff by blast
qed

lemma check_neighbors_total:
  assumes "ready cr" and "var \<in> keys cr" and "length val = var_length var" and "within cr a"
    and "set ys \<subseteq> set (neighbors (crossword cr) var)"
  shows "\<exists>b. check_neighbors cr a var val ys = Inr b"
  using assms(5)
proof (induction ys)
  case Nil
  show ?case by auto
next
  case (Cons y ys)
  from Cons.prems have yn: "y \<in> set (neighbors (crossword cr) var)"
    and "set ys \<subseteq> set (neighbors (crossword cr) var)"
    by simp_all
  from Cons.IH [OF this(2)] obtain b where b: "check_neighbors cr a var val ys = Inr b" by blast
  from assms(1) have wf: "well_formed cr" and bo: "bounded_overlaps (crossword cr)"
    by (simp_all add: ready_def)
  note vars = well_formed_keys [OF wf]
  from yn have yv: "y \<in> set (variables (crossword cr))" and ne: "var \<noteq> y"
    by (auto simp: neighbors_mem)
  from assms(2) vars have vv: "var \<in> set (variables (crossword cr))" by simp
  show ?case
  proof (cases "map_of a y")
    case None
    with b show ?thesis by auto
  next
    case (Some yval)
    from symmetric_overlapsD [OF _ vv yv ne] wf obtain ov where
      ov: "overlaps (crossword cr) (var, y) = Some ov"
      by (auto simp: well_formed_def)
    show ?thesis
    proof (cases ov)
      case None
      with Some ov b show ?thesis by auto
    next
      case inner: (Some ij)
      obtain i j where ij: "ij = (i, j)" by (cases ij)
      from ov inner ij have o: "overlaps (crossword cr) (var, y) = Some (Some (i, j))" by simp
      from bounded_overlapsD [OF bo vv yv o] have "i < var_length var" "j < var_length y"
        by simp_all
      with assms(3) within_length [OF assms(1,4) Some]
      have "i < length val" "j < length yval" by simp_all
      with Some o b show ?thesis by auto
    qed
  qed
qed

lemma consistent_loop_total:
  assumes "ready cr" and "within cr a"
  shows "set rest \<subseteq> set a \<Longrightarrow> \<exists>b. consistent_loop cr a rest dv = Inr b"
proof (induction rest arbitrary: dv)
  case Nil
  show ?case by auto
next
  case (Cons p rest)
  obtain var val where p: "p = (var, val)" by (cases p)
  from Cons.prems p have mem: "(var, val) \<in> set a" and sub: "set rest \<subseteq> set a" by simp_all
  from mem assms(2) obtain d where "map_of (domains cr) var = Some d"
    unfolding within_def by force
  then have vk: "var \<in> keys cr" by (rule lookup_keys)
  show ?case
  proof (cases "length val = var_length var")
    case False
    then show ?thesis unfolding p by auto
  next
    case True
    from check_neighbors_total [OF assms(1) vk True assms(2) subset_refl] obtain ok where
      ok: "check_neighbors cr a var val (neighbors (crossword cr) var) = Inr ok" by blast
    from Cons.IH [OF sub, of "dv @ [val]"] obtain b where
      "consistent_loop cr a rest (dv @ [val]) = Inr b" by blast
    with True ok show ?thesis unfolding p by auto
  qed
qed

lemma consistent_total:
  "ready cr \<Longrightarrow> within cr a \<Longrightarrow> \<exists>b. consistent cr a = Inr b"
  unfolding consistent_def by (rule consistent_loop_total) simp_all

lemma count_containing_total:
  "set ns \<subseteq> keys cr \<Longrightarrow> \<exists>c. count_containing cr x ns = Inr c"
proof (induction ns)
  case Nil
  show ?case by auto
next
  case (Cons n ns)
  then obtain c where "count_containing cr x ns = Inr c" by auto
  moreover from Cons.prems keys_lookup [of n cr] obtain d where
    "map_of (domains cr) n = Some d" by auto
  ultimately show ?case by auto
qed

lemma Dvalues_total:
  assumes "set ns \<subseteq> keys cr"
  shows "\<exists>dv. Dvalues cr ns xs = Inr dv \<and> map fst dv = xs"
proof (induction xs)
  case Nil
  show ?case by auto
next
  case (Cons x xs)
  then obtain dv where "Dvalues cr ns xs = Inr dv" "map fst dv = xs" by blast
  moreover from count_containing_total [OF assms] obtain c where
    "count_containing cr x ns = Inr c" by blast
  ultimately show ?case by auto
qed

lemma order_domain_values_total:
  assumes "well_formed cr" and "map_of (domains cr) var = Some d"
  shows "\<exists>vals. order_domain_values cr var a = Inr vals \<and> set vals = set d"
proof -
  have "set (neighbors (crossword cr) var) \<subseteq> keys cr"
  proof
    fix z assume "z \<in> set (neighbors (crossword cr) var)"
    then have "z \<in> set (variables (crossword cr))" unfolding neighbors_mem ..
    then show "z \<in> keys cr" unfolding well_formed_keys [OF assms(1)] .
  qed
  from Dvalues_total [OF this, of d] obtain dv where
    dv: "Dvalues cr (neighbors (crossword cr) var) d = Inr dv" "map fst dv = d" by blast
  have "set (map fst (sort_key snd dv)) = set (map fst dv)" by simp
  with dv assms(2) show ?thesis by (simp add: order_domain_values_def)
qed

lemma backtrack_total:
  "ready cr \<Longrightarrow> within cr a \<Longrightarrow> \<exists>out. backtrack cr a = Inr out"
  "ready cr \<Longrightarrow> within cr a \<Longrightarrow> map_of (domains cr) var = Some d \<Longrightarrow> set vals \<subseteq> set d \<Longrightarrow>
     \<exists>out. backtrack_values cr var vals a n = Inr out"
proof (induction cr a and cr var vals a n arbitrary: and d
    rule: backtrack_backtrack_values.induct)
  case (1 cr a)
  show ?case
  proof (cases "assignment_complete cr a")
    case True
    then have "backtrack cr a =
        Inr \<lparr>result = Some a, assignment_after = a, self_after = cr, calls = 1\<rparr>"
      by simp
    then show ?thesis ..
  next
    case False
    from select_unassigned_variable_total [OF False] obtain var where
      sel: "select_unassigned_variable cr a = Inr var" by blast
    from select_unassigned_variable_unassigned [OF sel] have "var \<in> keys cr"
      by (simp add: unassigned_def keys_def)
    from keys_lookup [OF this] obtain d where d: "map_of (domains cr) var = Some d" by blast
    from 1(2) have wf: "well_formed cr" by (simp add: ready_def)
    from order_domain_values_total [OF wf d, of a] obtain vals where
      ord: "order_domain_values cr var a = Inr vals" and vs: "set vals = set d" by blast
    from vs have "set vals \<subseteq> set d" by simp
    from 1(1) [OF False sel ord 1(2,3) d this] obtain out where
      "backtrack_values cr var vals a 1 = Inr out" by blast
    with False sel ord have "backtrack cr a = Inr out" by simp
    then show ?thesis ..
  qed
next
  case (2 cr var a n)
  have "backtrack_values cr var [] a n =
      Inr \<lparr>result = None, assignment_after = a, self_after = cr, calls = n\<rparr>"
    by simp
  then show ?case ..
next
  case (3 cr var val vals a n)
  let ?a1 = "AList.update var val a"
  note rd = 3(4) and wi = 3(5) and d = 3(6)
  from 3(7) have vd: "val \<in> set d" and sub: "set vals \<subseteq> set d" by simp_all
  have wi1: "within cr ?a1" using wi d vd by (rule within_update)
  have wid: "within cr (AList.delete var a)" using wi by (rule within_delete)
  from consistent_total [OF rd wi1] obtain ok where ok: "consistent cr ?a1 = Inr ok" by blast
  have p: "pop var ?a1 = Inr (AList.delete var a)" by (rule pop_update)
  show ?case
  proof (cases ok)
    case True
    from 3(1) [OF ok True rd wi1] obtain out1 where o1: "backtrack cr ?a1 = Inr out1" by blast
    note g1 = backtrack_outcome(1) [OF o1]
    show ?thesis
    proof (cases "truthy (result out1)")
      case yes: True
      with ok True o1
      have "backtrack_values cr var (val # vals) a n = Inr (out1\<lparr>calls := n + calls out1\<rparr>)"
        by simp
      then show ?thesis ..
    next
      case no: False
      have ne1: "?a1 \<noteq> []" by simp
      note f = good_outcome_falsy [OF g1 no ne1]
      from f(2) p have p1: "pop var (assignment_after out1) = Inr (AList.delete var a)"
        by simp
      from 3(2) [OF ok True o1 no p1, unfolded f(3), OF rd wid d sub] obtain out where
        "backtrack_values cr var vals (AList.delete var a) (n + calls out1) = Inr out"
        by blast
      with ok True o1 no p1 f(3)
      have "backtrack_values cr var (val # vals) a n = Inr out" by simp
      then show ?thesis ..
    qed
  next
    case False
    from 3(3) [OF ok False p rd wid d sub] obtain out where
      "backtrack_values cr var vals (AList.delete var a) n = Inr out" by blast
    with ok False p have "backtrack_values cr var (val # vals) a n = Inr out" by simp
    then show ?thesis ..
  qed
qed

subsection \<open>The search finds a solution that the domains hold\<close>

text \<open>The assignment gives every variable it holds the word of the solution.\<close>

definition partial_of :: "(Variable \<Rightarrow> word) \<Rightarrow> assignment \<Rightarrow> bool" where
  "partial_of sol a \<longleftrightarrow> (\<forall>p\<in>set a. snd p = sol (fst p))"

lemma partial_of_lookup: "partial_of sol a \<Longrightarrow> map_of a y = Some w \<Longrightarrow> w = sol y"
  unfolding partial_of_def by (force dest: map_of_SomeD)

lemma partial_of_update:
  assumes "partial_of sol a"
  shows "partial_of sol (AList.update var (sol var) a)"
  unfolding partial_of_def
proof
  fix p assume "p \<in> set (AList.update var (sol var) a)"
  from set_update_cases [OF this] show "snd p = sol (fst p)"
  proof
    assume "p = (var, sol var)"
    then show ?thesis by simp
  next
    assume "p \<in> set a"
    with assms show ?thesis unfolding partial_of_def ..
  qed
qed

lemma within_partial:
  assumes "supports cr sol" and "partial_of sol a" and "fst ` set a \<subseteq> keys cr"
  shows "within cr a"
  unfolding within_def
proof
  fix p assume p: "p \<in> set a"
  with assms(3) have "fst p \<in> keys cr" by blast
  from keys_lookup [OF this] obtain d where d: "map_of (domains cr) (fst p) = Some d" by blast
  with assms(1) have "sol (fst p) \<in> set d" by (simp add: supports_def)
  moreover from assms(2) p have "snd p = sol (fst p)" unfolding partial_of_def ..
  ultimately have "map_of (domains cr) (fst p) = Some d \<and> snd p \<in> set d" using d by simp
  then show "\<exists>d. map_of (domains cr) (fst p) = Some d \<and> snd p \<in> set d" ..
qed

lemma check_neighbors_agree:
  assumes "well_formed cr" and "solution (crossword cr) sol" and "var \<in> keys cr"
    and "partial_of sol a" and "set ys \<subseteq> set (neighbors (crossword cr) var)"
  shows "check_neighbors cr a var (sol var) ys = Inr True"
  using assms(5)
proof (induction ys)
  case Nil
  show ?case by simp
next
  case (Cons y ys)
  from Cons.prems have yn: "y \<in> set (neighbors (crossword cr) var)"
    and "set ys \<subseteq> set (neighbors (crossword cr) var)"
    by simp_all
  from Cons.IH [OF this(2)] have rest: "check_neighbors cr a var (sol var) ys = Inr True" .
  note vars = well_formed_keys [OF assms(1)]
  from yn have yv: "y \<in> set (variables (crossword cr))" and ne: "var \<noteq> y"
    by (auto simp: neighbors_mem)
  from assms(3) have vv: "var \<in> set (variables (crossword cr))" unfolding vars .
  show ?case
  proof (cases "map_of a y")
    case None
    with rest show ?thesis by simp
  next
    case (Some yval)
    from partial_of_lookup [OF assms(4) Some] have yval: "yval = sol y" .
    from symmetric_overlapsD [OF _ vv yv ne] assms(1) obtain ov where
      ov: "overlaps (crossword cr) (var, y) = Some ov"
      by (auto simp: well_formed_def)
    show ?thesis
    proof (cases ov)
      case None
      with Some ov rest show ?thesis by simp
    next
      case inner: (Some ij)
      obtain i j where ij: "ij = (i, j)" by (cases ij)
      from ov inner ij have o: "overlaps (crossword cr) (var, y) = Some (Some (i, j))" by simp
      from assms(2) vv yv ne o have "agree i j (sol var) (sol y)"
        unfolding solution_def by blast
      then have "i < length (sol var)" "j < length (sol y)" "sol var ! i = sol y ! j"
        by (simp_all add: agree_def)
      with Some yval o rest show ?thesis by simp
    qed
  qed
qed

lemma consistent_loop_complete:
  assumes "well_formed cr" and "solution (crossword cr) sol" and "partial_of sol a"
    and "fst ` set a \<subseteq> keys cr"
  shows "set rest \<subseteq> set a \<Longrightarrow> distinct (map fst rest) \<Longrightarrow>
     (\<forall>w\<in>set dv. \<exists>k\<in>keys cr. w = sol k \<and> k \<notin> fst ` set rest) \<Longrightarrow>
     consistent_loop cr a rest dv = Inr True"
proof (induction rest arbitrary: dv)
  case Nil
  show ?case by simp
next
  case (Cons p rest)
  obtain var val where p: "p = (var, val)" by (cases p)
  note vars = well_formed_keys [OF assms(1)]
  from Cons.prems(1) p have mem: "(var, val) \<in> set a" and sub: "set rest \<subseteq> set a"
    by simp_all
  from mem assms(3) have val: "val = sol var" unfolding partial_of_def by force
  from mem assms(4) have vk: "var \<in> keys cr" by force
  then have vv: "var \<in> set (variables (crossword cr))" unfolding vars .
  from Cons.prems(2) p have nr: "var \<notin> fst ` set rest" and dr: "distinct (map fst rest)"
    by simp_all
  from assms(2) vv have len: "length (sol var) = var_length var"
    unfolding solution_def by blast
  from assms(2) have inj: "inj_on sol (keys cr)"
    unfolding solution_def vars by blast
  have chk: "check_neighbors cr a var (sol var) (neighbors (crossword cr) var) = Inr True"
    using assms(1,2) vk assms(3) subset_refl by (rule check_neighbors_agree)
  have fresh: "sol var \<notin> set dv"
  proof
    assume "sol var \<in> set dv"
    with Cons.prems(3) obtain k where k: "k \<in> keys cr" "sol var = sol k"
      "k \<notin> fst ` set (p # rest)" by blast
    from inj k(2) vk k(1) have "var = k" by (rule inj_onD)
    with k(3) p show False by simp
  qed
  have next_dv: "\<forall>w\<in>set (dv @ [val]). \<exists>k\<in>keys cr. w = sol k \<and> k \<notin> fst ` set rest"
  proof
    fix w assume "w \<in> set (dv @ [val])"
    then consider "w \<in> set dv" | "w = val" by auto
    then show "\<exists>k\<in>keys cr. w = sol k \<and> k \<notin> fst ` set rest"
    proof cases
      case 1
      with Cons.prems(3) obtain k where "k \<in> keys cr" "w = sol k" "k \<notin> fst ` set (p # rest)"
        by blast
      then have "k \<in> keys cr \<and> w = sol k \<and> k \<notin> fst ` set rest" by simp
      then show ?thesis by blast
    next
      case 2
      with val vk nr show ?thesis by blast
    qed
  qed
  from Cons.IH [OF sub dr next_dv] have "consistent_loop cr a rest (dv @ [val]) = Inr True" .
  with len chk fresh show ?case unfolding p val by simp
qed

lemma consistent_complete:
  assumes "well_formed cr" and "solution (crossword cr) sol" and "partial_of sol a"
    and "fst ` set a \<subseteq> keys cr" and "distinct (map fst a)"
  shows "consistent cr a = Inr True"
  unfolding consistent_def
  by (rule consistent_loop_complete [OF assms(1-4) subset_refl assms(5)]) simp

lemma backtrack_complete:
  "ready cr \<Longrightarrow> solution (crossword cr) sol \<Longrightarrow> supports cr sol \<Longrightarrow> partial_of sol a \<Longrightarrow>
   distinct (map fst a) \<Longrightarrow> fst ` set a \<subseteq> keys cr \<Longrightarrow>
     \<exists>out r. backtrack cr a = Inr out \<and> result out = Some r"
  "ready cr \<Longrightarrow> solution (crossword cr) sol \<Longrightarrow> supports cr sol \<Longrightarrow> partial_of sol a \<Longrightarrow>
   distinct (map fst a) \<Longrightarrow> fst ` set a \<subseteq> keys cr \<Longrightarrow>
   var \<notin> fst ` set a \<Longrightarrow> map_of (domains cr) var = Some d \<Longrightarrow> set vals \<subseteq> set d \<Longrightarrow>
   sol var \<in> set vals \<Longrightarrow>
     \<exists>out r. backtrack_values cr var vals a n = Inr out \<and> result out = Some r"
proof (induction cr a and cr var vals a n arbitrary: and d
    rule: backtrack_backtrack_values.induct)
  case (1 cr a)
  note rd = 1(2) and sol = 1(3) and sup = 1(4) and part = 1(5) and dist = 1(6) and sub = 1(7)
  show ?case
  proof (cases "assignment_complete cr a")
    case True
    then have "backtrack cr a =
        Inr \<lparr>result = Some a, assignment_after = a, self_after = cr, calls = 1\<rparr>"
      by simp
    then have "backtrack cr a =
        Inr \<lparr>result = Some a, assignment_after = a, self_after = cr, calls = 1\<rparr> \<and>
      result \<lparr>result = Some a, assignment_after = a, self_after = cr, calls = 1\<rparr> = Some a"
      by simp
    then show ?thesis by blast
  next
    case False
    from select_unassigned_variable_total [OF False] obtain var where
      sel: "select_unassigned_variable cr a = Inr var" by blast
    from select_unassigned_variable_unassigned [OF sel]
    have vk: "var \<in> keys cr" and nv: "var \<notin> fst ` set a"
      by (simp_all add: unassigned_def keys_def)
    from keys_lookup [OF vk] obtain d where d: "map_of (domains cr) var = Some d" by blast
    from rd have wf: "well_formed cr" by (simp add: ready_def)
    from order_domain_values_total [OF wf d, of a] obtain vals where
      ord: "order_domain_values cr var a = Inr vals" and vs: "set vals = set d" by blast
    from vs have vsub: "set vals \<subseteq> set d" by simp
    from sup d vs have sv: "sol var \<in> set vals" by (simp add: supports_def)
    from 1(1) [OF False sel ord rd sol sup part dist sub nv d vsub sv] obtain out r where
      "backtrack_values cr var vals a 1 = Inr out" "result out = Some r" by blast
    with False sel ord have "backtrack cr a = Inr out \<and> result out = Some r" by simp
    then show ?thesis by blast
  qed
next
  case (2 cr var a n)
  then show ?case by simp
next
  case (3 cr var val vals a n)
  let ?a1 = "AList.update var val a"
  note rd = 3(4) and sol = 3(5) and sup = 3(6) and part = 3(7) and dist = 3(8) and sub = 3(9)
    and nv = 3(10) and d = 3(11)
  from 3(12) have vd: "val \<in> set d" and vsub: "set vals \<subseteq> set d" by simp_all
  from rd have wf: "well_formed cr" by (simp add: ready_def)
  from lookup_keys [OF d] have vk: "var \<in> keys cr" .
  from nv have da: "AList.delete var a = a" by simp
  have wi: "within cr a" using sup part sub by (rule within_partial)
  have wi1: "within cr ?a1" using wi d vd by (rule within_update)
  have keys1: "fst ` set ?a1 \<subseteq> keys cr" using sub vk by (simp add: dom_update)
  have dist1: "distinct (map fst ?a1)" using dist by (rule distinct_update)
  have ne1: "?a1 \<noteq> []" by simp
  have p: "pop var ?a1 = Inr a" using pop_update [of var val a] da by simp
  from consistent_total [OF rd wi1] obtain ok where ok: "consistent cr ?a1 = Inr ok" by blast
  show ?case
  proof (cases "val = sol var")
    case True
    from partial_of_update [OF part, of var] True have part1: "partial_of sol ?a1" by simp
    from consistent_complete [OF wf sol part1 keys1 dist1] ok have okT: "ok" by simp
    from 3(1) [OF ok okT rd sol sup part1 dist1 keys1] obtain out1 r where
      o1: "backtrack cr ?a1 = Inr out1" and r: "result out1 = Some r" by blast
    from backtrack_outcome(1) [OF o1] r have "fst ` set ?a1 \<subseteq> fst ` set r"
      by (simp add: good_outcome_def)
    with ne1 have "r \<noteq> []" by (cases ?a1) auto
    with r have "truthy (result out1)" by simp
    with ok okT o1
    have "backtrack_values cr var (val # vals) a n = Inr (out1\<lparr>calls := n + calls out1\<rparr>)"
      by simp
    moreover from r have "result (out1\<lparr>calls := n + calls out1\<rparr>) = Some r" by simp
    ultimately show ?thesis by blast
  next
    case False
    with 3(13) have sv: "sol var \<in> set vals" by simp
    show ?thesis
    proof (cases ok)
      case okT: True
      from backtrack_total(1) [OF rd wi1] obtain out1 where
        o1: "backtrack cr ?a1 = Inr out1" by blast
      note g1 = backtrack_outcome(1) [OF o1]
      show ?thesis
      proof (cases "truthy (result out1)")
        case yes: True
        from truthy_Some [OF yes] obtain r where r: "result out1 = Some r" by blast
        from ok okT o1 yes
        have "backtrack_values cr var (val # vals) a n = Inr (out1\<lparr>calls := n + calls out1\<rparr>)"
          by simp
        moreover from r have "result (out1\<lparr>calls := n + calls out1\<rparr>) = Some r" by simp
        ultimately show ?thesis by blast
      next
        case no: False
        note f = good_outcome_falsy [OF g1 no ne1]
        from f(2) p have p1: "pop var (assignment_after out1) = Inr a" by simp
        from 3(2) [OF ok okT o1 no p1, unfolded f(3), OF rd sol sup part dist sub nv d vsub sv]
        obtain out r where
          "backtrack_values cr var vals a (n + calls out1) = Inr out" "result out = Some r"
          by blast
        with ok okT o1 no p1 f(3)
        have "backtrack_values cr var (val # vals) a n = Inr out \<and> result out = Some r"
          by simp
        then show ?thesis by blast
      qed
    next
      case okF: False
      from 3(3) [OF ok okF p rd sol sup part dist sub nv d vsub sv] obtain out r where
        "backtrack_values cr var vals a n = Inr out" "result out = Some r" by blast
      with ok okF p
      have "backtrack_values cr var (val # vals) a n = Inr out \<and> result out = Some r"
        by simp
      then show ?thesis by blast
    qed
  qed
qed

subsection \<open>The solver finds a solution when there is one\<close>

lemma map_of_const:
  "map_of (map (\<lambda>v. (v, c)) vs) v = (if v \<in> set vs then Some c else None)"
  by (induction vs) auto

lemma init_lookup:
  "map_of (domains (init cw)) v = (if v \<in> set (variables cw) then Some (words cw) else None)"
  by (simp add: init_def map_of_const)

lemma init_keys: "map fst (domains (init cw)) = variables cw"
  by (simp add: init_def comp_def)

lemma distinct_snd_unique:
  assumes "distinct (map snd s)" and "(x, w) \<in> set s" and "(y, w) \<in> set s"
  shows "x = y"
proof -
  from assms(1) have "inj_on snd (set s)" by (simp add: distinct_map)
  from this _ assms(2,3) have "(x, w) = (y, w)" by (rule inj_onD) simp
  then show ?thesis by simp
qed

lemma solution_of_assignment:
  assumes so: "symmetric_overlaps cw"
    and comp: "complete_assignment cw s" and cons: "consistent_assignment cw s"
  shows "solution cw (\<lambda>v. the (map_of s v))"
proof -
  let ?sol = "\<lambda>v. the (map_of s v)"
  have look: "map_of s v = Some (?sol v)" if "v \<in> set (variables cw)" for v
    using comp that by (auto simp: complete_assignment_def list_all_iff)
  have mem: "(v, ?sol v) \<in> set s" if "v \<in> set (variables cw)" for v
    using look [OF that] by (rule map_of_SomeD)
  from cons have
    c1: "\<forall>p\<in>set s. case p of (v, w) \<Rightarrow> length w = var_length v" and
    c2: "\<forall>p\<in>set s. case p of (x, wx) \<Rightarrow>
          \<forall>y\<in>set (neighbors cw x).
            case map_of s y of
              None \<Rightarrow> True
            | Some wy \<Rightarrow>
                (case overlaps cw (x, y) of
                   Some (Some (i, j)) \<Rightarrow> agree i j wx wy
                 | _ \<Rightarrow> True)" and
    c3: "distinct (map snd s)"
    by (simp_all add: consistent_assignment_def list_all_iff)
  show ?thesis
    unfolding solution_def
  proof (intro conjI ballI allI impI)
    fix v assume "v \<in> set (variables cw)"
    from c1 mem [OF this] show "length (?sol v) = var_length v" by fast
  next
    fix x y i j
    assume x: "x \<in> set (variables cw)" and y: "y \<in> set (variables cw)" and ne: "x \<noteq> y"
      and ov: "overlaps cw (x, y) = Some (Some (i, j))"
    from symmetric_overlapsD [OF so x y ne] ov
    have "overlaps cw (y, x) = Some (Some (j, i))" by auto
    with y ne have yn: "y \<in> set (neighbors cw x)" by (simp add: neighbors_mem)
    from c2 mem [OF x] have nb: "\<forall>y\<in>set (neighbors cw x).
        case map_of s y of
          None \<Rightarrow> True
        | Some wy \<Rightarrow>
            (case overlaps cw (x, y) of
               Some (Some (i, j)) \<Rightarrow> agree i j (?sol x) wy
             | _ \<Rightarrow> True)"
      by fast
    from nb yn have "case map_of s y of
          None \<Rightarrow> True
        | Some wy \<Rightarrow>
            (case overlaps cw (x, y) of
               Some (Some (i, j)) \<Rightarrow> agree i j (?sol x) wy
             | _ \<Rightarrow> True)" by (rule bspec)
    moreover obtain wy where wy: "map_of s y = Some wy"
      using look [OF y] ..
    ultimately have "agree i j (?sol x) wy" using ov by simp
    with wy show "agree i j (?sol x) (?sol y)" by simp
  next
    show "inj_on ?sol (set (variables cw))"
    proof (rule inj_onI)
      fix x y assume x: "x \<in> set (variables cw)" and y: "y \<in> set (variables cw)"
        and eq: "?sol x = ?sol y"
      from mem [OF x] eq have "(x, ?sol y) \<in> set s" by simp
      with c3 show "x = y" using mem [OF y] by (rule distinct_snd_unique)
    qed
  qed
qed

lemma solve_returns_solution:
  assumes "solve (init cw) = Inr out" and "result out = Some a"
  shows "complete_assignment cw a \<and> consistent_assignment cw a"
proof -
  from assms(1) obtain ok cr where
    ac: "ac3 (enforce_node_consistency (init cw)) None = Inr (ok, cr)" and
    bt: "backtrack cr [] = Inr out"
    by (auto simp: solve_def split: sum.splits)
  from ac have "crossword cr = crossword (enforce_node_consistency (init cw))"
    and "narrowed (enforce_node_consistency (init cw)) cr"
    unfolding ac3_def using ac3_loop_narrowed by blast+
  then have cw: "crossword cr = cw" and keys: "map fst (domains cr) = variables cw"
    by (simp_all add: narrowed_iff init_def comp_def)
  from backtrack_outcome(1) [OF bt] assms(2)
  have c: "assignment_complete cr a" and k: "a = [] \<or> consistent cr a = Inr True"
    by (simp_all add: good_outcome_def)
  from k have "consistent cr a = Inr True" by (auto simp: consistent_Nil)
  then have "consistent_assignment cw a" using consistent_sound cw by blast
  moreover from c keys have "complete_assignment cw a"
    by (simp add: assignment_complete_def complete_assignment_def)
  ultimately show ?thesis by simp
qed

section \<open>The claims\<close>

subsection \<open>Evaluations of the example puzzles\<close>

lemma ex2_propagation:
  "ac3 (enforce_node_consistency (init ex2)) None =
     Inr (False, \<lparr>crossword = ex2, domains = [(ex2_A, []), (ex2_B, [''not'', ''now''])]\<rparr>)"
  by (simp add: enforce_node_consistency_def init_def ex2_def ex2_A_def ex2_B_def
      prune_lengths_def remove_word_def ac3_def all_arcs_def revise_def)

lemma ex2_node_consistency: "enforce_node_consistency (init ex2) = ex2_nc"
  by (simp add: enforce_node_consistency_def init_def ex2_def ex2_A_def ex2_B_def
      prune_lengths_def remove_word_def ex2_nc_def)

lemma ex2_revise: "revise ex2_nc ex2_A ex2_B = Inr (True, ex2_ac)"
  by (simp add: ex2_nc_def ex2_ac_def ex2_def ex2_A_def ex2_B_def revise_def remove_word_def)

lemma ex2_ac3: "ac3 ex2_nc None = Inr (False, ex2_ac)"
  by (simp add: ex2_nc_def ex2_ac_def ex2_def ex2_A_def ex2_B_def revise_def remove_word_def
      ac3_def all_arcs_def)

lemma ex4_distinct: "ex4_A \<noteq> ex4_B"
  by (simp add: ex4_A_def ex4_B_def)

lemma ex4_node_consistency: "enforce_node_consistency (init ex4) = ex4_nc"
  by (simp add: enforce_node_consistency_def init_def ex4_def ex4_A_def ex4_B_def
      prune_lengths_def remove_word_def ex4_nc_def)

lemma ex4_well_formed: "well_formed ex4_nc"
  using ex4_distinct
  by (simp add: well_formed_def symmetric_overlaps_def ex4_nc_def ex4_def)

lemma ex4_ac3: "ac3 ex4_nc None = Inr (True, ex4_ac)"
  by (simp add: ex4_nc_def ex4_ac_def ex4_def ex4_A_def ex4_B_def revise_def remove_word_def
      ac3_def all_arcs_def neighbors_def)

lemma ex4_solve:
  "map_sum id (\<lambda>out. (result out, calls out)) (solve (init ex4)) =
     Inr (Some [(ex4_A, ''cat''), (ex4_B, ''coal'')], 3)"
  by code_simp

lemma ex5_backtrack:
  "map_sum id (\<lambda>out. (result out, calls out)) (backtrack (init ex5) [(ex5_A, ''abc'')]) =
     Inr (None, 1)"
  by code_simp

lemma ex4_solution:
  "symmetric_overlaps ex4" "bounded_overlaps ex4"
  "complete_assignment ex4 [(ex4_A, ''cat''), (ex4_B, ''coal'')]"
  "consistent_assignment ex4 [(ex4_A, ''cat''), (ex4_B, ''coal'')]"
  "list_all (\<lambda>(v, w). w \<in> set (words ex4)) [(ex4_A, ''cat''), (ex4_B, ''coal'')]"
  using ex4_distinct
  by (simp_all add: symmetric_overlaps_def bounded_overlaps_def complete_assignment_def
      consistent_assignment_def neighbors_def agree_def ex4_def ex4_A_def ex4_B_def)

subsection \<open>C1\<close>

text \<open>
  C1, as stated: if arc-consistency propagation (\<open>ac3\<close> on all arcs) empties a domain,
  \<open>solve\<close> returns the no-solution result without invoking the backtracking search.
  On the puzzle \<open>ex2\<close> propagation fails, \<open>solve\<close> returns \<open>None\<close>, and the search
  has been invoked once.
\<close>

theorem solve_failed_propagation_invokes_search:
  "map_sum id fst (ac3 (enforce_node_consistency (init ex2)) None) = Inr False \<and>
   map_sum id (\<lambda>out. (result out, calls out)) (solve (init ex2)) = Inr (None, 1)"
  by code_simp

text \<open>
  C1, amended: if \<open>ac3\<close> on all arcs reports failure, \<open>solve\<close> returns the no-solution
  result; the search is still invoked, exactly once: the root call selects a variable
  whose domain is empty, tries no value and leaves the assignment empty.
\<close>

theorem solve_failed_propagation:
  assumes "ac3 (enforce_node_consistency cr) None = Inr (False, cr')"
  shows "solve cr = Inr \<lparr>result = None, assignment_after = [], self_after = cr', calls = 1\<rparr>"
proof -
  from assms obtain x where "map_of (domains cr') x = Some []"
    unfolding ac3_def using ac3_loop_False_empty by blast
  then have "backtrack cr' [] =
      Inr \<lparr>result = None, assignment_after = [], self_after = cr', calls = 1\<rparr>"
    by (rule backtrack_empty_domain)
  then show ?thesis
    by (simp add: solve_def assms)
qed

theorem solve_failed_propagation_witness:
  "solve (init ex2) =
     Inr \<lparr>result = None, assignment_after = [],
          self_after = \<lparr>crossword = ex2, domains = [(ex2_A, []), (ex2_B, [''not'', ''now''])]\<rparr>,
          calls = 1\<rparr>"
  by (rule solve_failed_propagation [OF ex2_propagation])

subsection \<open>C2\<close>

text \<open>
  C2: \<open>select_unassigned_variable\<close> returns an unassigned variable of minimal domain
  size and, among those, one with the most neighbors. On the puzzle \<open>ex3\<close>, after node
  and arc consistency, the three variables are unassigned with three candidate words
  each; \<open>ex3_A\<close> has two neighbors, \<open>ex3_B\<close> and \<open>ex3_C\<close> have one each, and the
  function returns \<open>ex3_B\<close>: the sort is ascending in the number of neighbors too
  (lemma \<open>select_unassigned_variable_least\<close> states what is returned in general).
\<close>

theorem select_unassigned_variable_takes_lowest_degree:
  "map_sum id (\<lambda>(ok, cr). (ok, domains cr)) (ac3 (enforce_node_consistency (init ex3)) None) =
     Inr (True, domains (init ex3)) \<and>
   mrv (init ex3) [] (map fst (domains (init ex3))) =
     Inr [(ex3_A, 3, 2), (ex3_B, 3, 1), (ex3_C, 3, 1)] \<and>
   select_unassigned_variable (init ex3) [] = Inr ex3_B"
  by code_simp

subsection \<open>C3\<close>

text \<open>
  C3: every assignment \<open>solve\<close> returns (any result that is not \<open>None\<close>) is complete,
  it gives a word to every slot variable, and consistent: every assigned word has the
  length of its variable, assigned neighbors agree at the positions of their overlap,
  and the assigned words are pairwise distinct.
\<close>

theorem solve_sound:
  assumes "solve (init cw) = Inr out" and "result out = Some a"
  shows "complete_assignment cw a \<and> consistent_assignment cw a"
  using assms by (rule solve_returns_solution)

theorem solve_sound_witness:
  "\<exists>out. solve (init ex4) = Inr out \<and> result out = Some [(ex4_A, ''cat''), (ex4_B, ''coal'')] \<and>
     complete_assignment ex4 [(ex4_A, ''cat''), (ex4_B, ''coal'')] \<and>
     consistent_assignment ex4 [(ex4_A, ''cat''), (ex4_B, ''coal'')]"
proof -
  from ex4_solve obtain out where
    s: "solve (init ex4) = Inr out" and
    r: "result out = Some [(ex4_A, ''cat''), (ex4_B, ''coal'')]"
    by (cases "solve (init ex4)") auto
  from solve_sound [OF s r] s r show ?thesis by blast
qed

subsection \<open>C4\<close>

text \<open>
  C4: if there is a complete, consistent assignment that draws every word from the word
  list (the domain every variable starts with), then \<open>solve\<close> returns a satisfying
  assignment, not the no-solution result. The overlap table of the puzzle keeps its
  contract: it is symmetric, and its positions lie inside the slots.
\<close>

theorem solve_complete:
  assumes so: "symmetric_overlaps cw" and bo: "bounded_overlaps cw"
    and comp: "complete_assignment cw s" and cons: "consistent_assignment cw s"
    and dict: "list_all (\<lambda>(v, w). w \<in> set (words cw)) s"
  shows "\<exists>out a. solve (init cw) = Inr out \<and> result out = Some a \<and>
           complete_assignment cw a \<and> consistent_assignment cw a"
proof -
  let ?sol = "\<lambda>v. the (map_of s v)"
  let ?cr0 = "enforce_node_consistency (init cw)"
  have sol: "solution cw ?sol" using so comp cons by (rule solution_of_assignment)
  have cw0: "crossword ?cr0 = cw" by (simp add: init_def)
  have keys0: "map fst (domains ?cr0) = variables cw" by (simp add: init_keys)
  have "well_formed ?cr0"
    unfolding well_formed_def cw0 keys0 using so by simp
  with bo have rd0: "ready ?cr0"
    unfolding ready_def cw0 by (simp add: enforce_node_consistency_node_consistent)
  have sup0: "supports ?cr0 ?sol"
    unfolding supports_def
  proof (intro allI impI)
    fix v d assume d: "map_of (domains ?cr0) v = Some d"
    then have v: "v \<in> set (variables cw)"
      and dd: "d = filter (\<lambda>w. length w = var_length v) (words cw)"
      by (auto simp: enforce_node_consistency_lookup init_lookup split: if_splits)
    from comp v have "map_of s v = Some (?sol v)"
      by (auto simp: complete_assignment_def list_all_iff)
    then have "(v, ?sol v) \<in> set s" by (rule map_of_SomeD)
    with dict have "?sol v \<in> set (words cw)" unfolding list_all_iff by fast
    moreover from sol v have "length (?sol v) = var_length v" unfolding solution_def by blast
    ultimately show "?sol v \<in> set d" unfolding dd by simp
  qed
  from sol cw0 have sol0: "solution (crossword ?cr0) ?sol" by simp
  from ac3_loop_total [OF rd0 all_arcs_proper sol0 sup0] obtain r cr where
    ac: "ac3_loop ?cr0 (all_arcs ?cr0) = Inr (r, cr)" and rd: "ready cr"
    and sup: "supports cr ?sol" and cw: "crossword cr = crossword ?cr0"
    by blast
  from sol cw cw0 have sol': "solution (crossword cr) ?sol" by simp
  have "partial_of ?sol []" by (simp add: partial_of_def)
  from backtrack_complete(1) [OF rd sol' sup this] obtain out a where
    bt: "backtrack cr [] = Inr out" and res: "result out = Some a"
    by auto
  from ac bt have s: "solve (init cw) = Inr out"
    by (simp add: solve_def ac3_def)
  from solve_returns_solution [OF s res] s res show ?thesis by blast
qed

theorem solve_complete_witness:
  "symmetric_overlaps ex4 \<and> bounded_overlaps ex4 \<and>
   complete_assignment ex4 [(ex4_A, ''cat''), (ex4_B, ''coal'')] \<and>
   consistent_assignment ex4 [(ex4_A, ''cat''), (ex4_B, ''coal'')] \<and>
   (\<exists>out a. solve (init ex4) = Inr out \<and> result out = Some a \<and>
      complete_assignment ex4 a \<and> consistent_assignment ex4 a)"
  using ex4_solution solve_complete [OF ex4_solution]
  by (intro conjI)

subsection \<open>C5\<close>

text \<open>
  C5: if \<open>ac3\<close>, started on all ordered pairs of distinct variables, returns \<open>True\<close>,
  then afterwards, for every pair of variables \<open>(x, y)\<close> with a non-null overlap
  \<open>(i, j)\<close>, every word \<open>w\<close> left in \<open>x\<close>'s domain has a word \<open>u\<close> in \<open>y\<close>'s domain
  with \<open>w[i] == u[j]\<close>. The creator is well formed: its keys are the puzzle's variables,
  and the overlap table is symmetric.
\<close>

theorem ac3_arc_consistent:
  assumes "well_formed cr" and "ac3 cr None = Inr (True, cr')"
    and "x \<noteq> y" and "overlaps (crossword cr') (x, y) = Some (Some (i, j))"
    and "map_of (domains cr') x = Some xd" and "map_of (domains cr') y = Some yd"
    and "w \<in> set xd"
  shows "\<exists>u\<in>set yd. agree i j w u"
proof -
  from ac3_settles [OF assms(1,2)] lookup_keys [OF assms(5)] lookup_keys [OF assms(6)] assms(3)
  have "arc_ok cr' x y" by (simp add: settled_def)
  then have "\<forall>w\<in>set xd. valid_against i j w yd = Inr True"
    unfolding arc_ok_iff [OF assms(3,5,6,4)] .
  with assms(7) have "valid_against i j w yd = Inr True" by blast
  then show ?thesis by (rule valid_against_True)
qed

theorem ac3_arc_consistent_witness:
  "well_formed ex4_nc \<and> ac3 ex4_nc None = Inr (True, ex4_ac) \<and>
   (\<exists>u\<in>set [''coal'']. agree 0 0 ''cat'' u)"
proof -
  have ov: "overlaps (crossword ex4_ac) (ex4_A, ex4_B) = Some (Some (0, 0))"
    by (simp add: ex4_ac_def ex4_def)
  have lx: "map_of (domains ex4_ac) ex4_A = Some [''cat'']"
    by (simp add: ex4_ac_def)
  have ly: "map_of (domains ex4_ac) ex4_B = Some [''coal'']"
    using ex4_distinct by (simp add: ex4_ac_def)
  have "''cat'' \<in> set [''cat'']" by simp
  from ac3_arc_consistent [OF ex4_well_formed ex4_ac3 ex4_distinct ov lx ly this]
    ex4_well_formed ex4_ac3
  show ?thesis by (intro conjI)
qed

subsection \<open>C6\<close>

text \<open>
  C6: \<open>revise(x, y)\<close> is a no-op returning \<open>False\<close> when the overlap of \<open>(x, y)\<close> is
  null. Otherwise it keeps a word of \<open>x\<close>'s domain iff some word of \<open>y\<close>'s domain agrees
  with it at the two letter positions of the overlap, removes exactly the other words,
  leaves every other domain (that of \<open>y\<close> included) unchanged, and returns \<open>True\<close> iff
  a word was removed. This is what every returning call does, for two distinct variables
  with domains and an entry in the overlap table; and the call does return when the
  two positions lie inside all words of the two domains.
\<close>

theorem revise_correct:
  assumes "x \<noteq> y" and "map_of (domains cr) x = Some xd" and "map_of (domains cr) y = Some yd"
    and "overlaps (crossword cr) (x, y) = Some ov"
  shows "(\<forall>r cr'. revise cr x y = Inr (r, cr') \<longrightarrow>
            (case ov of
               None \<Rightarrow> r = False \<and> cr' = cr
             | Some (i, j) \<Rightarrow>
                 map_of (domains cr') x = Some (filter (\<lambda>w. \<exists>u\<in>set yd. agree i j w u) xd) \<and>
                 (\<forall>v. v \<noteq> x \<longrightarrow> map_of (domains cr') v = map_of (domains cr) v) \<and>
                 map fst (domains cr') = map fst (domains cr) \<and>
                 crossword cr' = crossword cr \<and>
                 r = (\<exists>w\<in>set xd. \<not> (\<exists>u\<in>set yd. agree i j w u)))) \<and>
         ((case ov of
             None \<Rightarrow> True
           | Some (i, j) \<Rightarrow> (\<forall>w\<in>set xd. i < length w) \<and> (\<forall>u\<in>set yd. j < length u)) \<longrightarrow>
            (\<exists>r cr'. revise cr x y = Inr (r, cr')))"
proof (intro conjI allI impI)
  fix r cr' assume run: "revise cr x y = Inr (r, cr')"
  show "case ov of
          None \<Rightarrow> r = False \<and> cr' = cr
        | Some (i, j) \<Rightarrow>
            map_of (domains cr') x = Some (filter (\<lambda>w. \<exists>u\<in>set yd. agree i j w u) xd) \<and>
            (\<forall>v. v \<noteq> x \<longrightarrow> map_of (domains cr') v = map_of (domains cr) v) \<and>
            map fst (domains cr') = map fst (domains cr) \<and>
            crossword cr' = crossword cr \<and>
            r = (\<exists>w\<in>set xd. \<not> (\<exists>u\<in>set yd. agree i j w u))"
  proof (cases ov)
    case None
    with run assms(2,4) show ?thesis by (auto simp: revise_def)
  next
    case (Some ij)
    obtain i j where ij: "ij = (i, j)" by (cases ij)
    from assms(4) Some ij have ov: "overlaps (crossword cr) (x, y) = Some (Some (i, j))" by simp
    note res = revise_result [OF assms(1-3) ov run]
    from res(1) assms(2)
    have "map_of (domains cr') x = Some (filter (\<lambda>w. \<exists>u\<in>set yd. agree i j w u) xd)"
      and "\<forall>v. v \<noteq> x \<longrightarrow> map_of (domains cr') v = map_of (domains cr) v"
      and "map fst (domains cr') = map fst (domains cr)"
      and "crossword cr' = crossword cr"
      by (simp_all add: map_of_map_entry_eq map_entry_keys)
    with res(2) Some ij show ?thesis by simp
  qed
next
  assume "case ov of
            None \<Rightarrow> True
          | Some (i, j) \<Rightarrow> (\<forall>w\<in>set xd. i < length w) \<and> (\<forall>u\<in>set yd. j < length u)"
  then have "\<And>i j. ov = Some (i, j) \<Longrightarrow>
      (\<forall>w\<in>set xd. i < length w) \<and> (\<forall>u\<in>set yd. j < length u)"
    by simp
  with assms show "\<exists>r cr'. revise cr x y = Inr (r, cr')"
    by (rule revise_total)
qed

theorem revise_correct_witness:
  "revise ex2_nc ex2_A ex2_B = Inr (True, ex2_ac) \<and>
   map_of (domains ex2_ac) ex2_A =
     Some (filter (\<lambda>w. \<exists>u\<in>set [''not'', ''now'']. agree 2 0 w u) [''rain'']) \<and>
   map_of (domains ex2_ac) ex2_B = Some [''not'', ''now''] \<and>
   (\<exists>w\<in>set [''rain'']. \<not> (\<exists>u\<in>set [''not'', ''now'']. agree 2 0 w u))"
proof -
  have ne: "ex2_A \<noteq> ex2_B" by (simp add: ex2_A_def ex2_B_def)
  have lx: "map_of (domains ex2_nc) ex2_A = Some [''rain'']"
    by (simp add: ex2_nc_def)
  have ly: "map_of (domains ex2_nc) ex2_B = Some [''not'', ''now'']"
    using ne by (simp add: ex2_nc_def)
  have ov: "overlaps (crossword ex2_nc) (ex2_A, ex2_B) = Some (Some (2, 0))"
    by (simp add: ex2_nc_def ex2_def)
  have c: "map_of (domains ex2_ac) ex2_A =
        Some (filter (\<lambda>w. \<exists>u\<in>set [''not'', ''now'']. agree 2 0 w u) [''rain'']) \<and>
      (\<forall>v. v \<noteq> ex2_A \<longrightarrow> map_of (domains ex2_ac) v = map_of (domains ex2_nc) v) \<and>
      map fst (domains ex2_ac) = map fst (domains ex2_nc) \<and>
      crossword ex2_ac = crossword ex2_nc \<and>
      True = (\<exists>w\<in>set [''rain'']. \<not> (\<exists>u\<in>set [''not'', ''now'']. agree 2 0 w u))"
    using revise_correct [OF ne lx ly ov, THEN conjunct1, rule_format, OF ex2_revise]
    unfolding option.case prod.case .
  have "map_of (domains ex2_ac) ex2_B = map_of (domains ex2_nc) ex2_B"
    using c [THEN conjunct2, THEN conjunct1, rule_format, of ex2_B] ne by simp
  with ly have b: "map_of (domains ex2_ac) ex2_B = Some [''not'', ''now'']"
    by (simp only:)
  have r: "\<exists>w\<in>set [''rain'']. \<not> (\<exists>u\<in>set [''not'', ''now'']. agree 2 0 w u)"
    using c [THEN conjunct2, THEN conjunct2, THEN conjunct2, THEN conjunct2] by (rule iffD1 [OF _ TrueI])
  from ex2_revise c [THEN conjunct1] b r show ?thesis
    by (intro conjI)
qed

subsection \<open>C7\<close>

text \<open>
  C7: after \<open>enforce_node_consistency\<close> every word of every domain has the length of its
  variable, and the later operations on the domains keep it so: \<open>revise\<close> and \<open>ac3\<close>
  (on any worklist) only remove words.
\<close>

theorem length_invariant:
  "node_consistent (enforce_node_consistency cr) \<and>
   (node_consistent s \<longrightarrow> revise s x y = Inr (r, s') \<longrightarrow> node_consistent s' \<and> narrowed s s') \<and>
   (node_consistent s \<longrightarrow> ac3 s arcs = Inr (r', s'') \<longrightarrow> node_consistent s'' \<and> narrowed s s'')"
proof (intro conjI impI)
  show "node_consistent (enforce_node_consistency cr)"
    by (rule enforce_node_consistency_node_consistent)
next
  assume "node_consistent s" "revise s x y = Inr (r, s')"
  then show "node_consistent s'" "narrowed s s'"
    by (auto intro: narrowed_node_consistent revise_narrowed)
next
  assume nc: "node_consistent s" and "ac3 s arcs = Inr (r', s'')"
  then have "narrowed s s''"
    unfolding ac3_def using ac3_loop_narrowed by blast
  with nc show "node_consistent s''" "narrowed s s''"
    by (auto intro: narrowed_node_consistent)
qed

theorem length_invariant_witness:
  "node_consistent (enforce_node_consistency (init ex2)) \<and>
   node_consistent ex2_nc \<and> revise ex2_nc ex2_A ex2_B = Inr (True, ex2_ac) \<and>
   ac3 ex2_nc None = Inr (False, ex2_ac) \<and>
   node_consistent ex2_ac \<and> narrowed ex2_nc ex2_ac"
  using length_invariant [of "init ex2" ex2_nc ex2_A ex2_B True ex2_ac None False ex2_ac]
    ex2_node_consistency ex2_revise ex2_ac3
  by simp

subsection \<open>C8\<close>

text \<open>
  C8: running \<open>ac3\<close> on all arcs a second time, on the domains a successful run has
  left, removes nothing: the second run returns \<open>True\<close> and the creator it returns is
  the one it started from.
\<close>

theorem ac3_idempotent:
  assumes "well_formed cr" and "ac3 cr None = Inr (True, cr')"
  shows "ac3 cr' None = Inr (True, cr')"
  unfolding ac3_def option.case
  by (rule ac3_loop_fixpoint [OF ac3_settles [OF assms] all_arcs_proper])

theorem ac3_idempotent_witness:
  "well_formed ex4_nc \<and> ac3 ex4_nc None = Inr (True, ex4_ac) \<and>
   ac3 ex4_ac None = Inr (True, ex4_ac)"
  using ex4_well_formed ex4_ac3 ac3_idempotent [OF ex4_well_formed ex4_ac3]
  by (intro conjI)

subsection \<open>C9\<close>

text \<open>
  C9: for every partial assignment \<open>a\<close>, when \<open>backtrack(a)\<close> returns \<open>None\<close> the
  dictionary \<open>a\<close> holds what it held at entry; and a returning call, successful or not,
  leaves the creator, its stored domains included, as it was.
\<close>

theorem backtrack_frame:
  assumes "backtrack cr a = Inr out"
  shows "self_after out = cr \<and> domains (self_after out) = domains cr \<and>
         (result out = None \<longrightarrow> assignment_after out = a)"
  using backtrack_outcome(1) [OF assms]
  by (auto simp: good_outcome_def)

theorem backtrack_frame_witness:
  "\<exists>out. backtrack (init ex5) [(ex5_A, ''abc'')] = Inr out \<and> result out = None \<and>
     assignment_after out = [(ex5_A, ''abc'')] \<and> self_after out = init ex5"
proof -
  from ex5_backtrack obtain out where
    b: "backtrack (init ex5) [(ex5_A, ''abc'')] = Inr out" and r: "result out = None"
    by (cases "backtrack (init ex5) [(ex5_A, ''abc'')]") auto
  from backtrack_frame [OF b] r b show ?thesis by blast
qed

subsection \<open>C10\<close>

text \<open>
  C10: when the puzzle has no slot variables (the domain map is empty), \<open>solve\<close>
  returns the empty assignment, not \<open>None\<close>: the root call of the search finds the
  assignment complete and returns it at once.
\<close>

theorem solve_no_variables:
  "domains cr = [] \<Longrightarrow>
   solve cr = Inr \<lparr>result = Some [], assignment_after = [], self_after = cr, calls = 1\<rparr>"
  by (simp add: solve_def ac3_def all_arcs_def enforce_node_consistency_def
      assignment_complete_def)

theorem solve_no_variables_witness:
  "solve (init ex0) =
     Inr \<lparr>result = Some [], assignment_after = [], self_after = init ex0, calls = 1\<rparr>"
  by (rule solve_no_variables) (simp add: init_def ex0_def)

end
